theory Spec2Isabelle
  imports Main "HOL-Library.AList"
begin

section \<open>Clazzy: classes on top of prototypes\<close>

text \<open>
  The library is one function, \<^verbatim>\<open>create\<close>, and the helpers it calls. All of them work on
  JavaScript objects, so the embedding starts with the part of the host object model the
  source relies on: values, property descriptors, objects with a prototype link, and
  function objects. The source's functions are then translated one by one, with the heap
  passed explicitly and every \<^verbatim>\<open>throw\<close> a value of a sum type.

  Scope of the host model.
  \<^item> Every property is a writable data property; a descriptor is its value and the
    \<^verbatim>\<open>enumerable\<close> and \<^verbatim>\<open>configurable\<close> attributes. Accessors, frozen objects and
    non-writable properties are not modelled.
  \<^item> An array is an immutable list value; the library only reads its \<^verbatim>\<open>length\<close> and
    its elements by index. An array (or non-empty string) used where the library enumerates
    or defines properties is answered with the host's \<^verbatim>\<open>TypeError\<close>.
  \<^item> The host provides \<^verbatim>\<open>Object\<close>, \<^verbatim>\<open>Object.prototype\<close> and
    \<^verbatim>\<open>Function.prototype\<close>; the prototypes of numbers, booleans, strings and arrays are
    not modelled, a property read on such a value yields \<^verbatim>\<open>undefined\<close>
    (\<^verbatim>\<open>length\<close> apart).
  \<^item> A prototype is allocated before every object that links to it, and the link never
    changes; walks up the chain test this, which makes them structurally terminating.
\<close>

subsection \<open>Values, descriptors, objects, heap\<close>

type_synonym addr = nat

datatype val = Undefined | Null | Bool bool | Num int | Str string | Arr "val list" | Ref addr

datatype exn = Error string | TypeError | Thrown val

record descriptor =
  dvalue :: val
  enumerable :: bool
  configurable :: bool

text \<open>
  Functions written by a client of the library are procedures that act on the heap through
  property reads, property writes, calls and \<^verbatim>\<open>new\<close>. A call hands its outcome, value or
  exception, to the rest of the procedure, so a client may catch what a callee throws;
  \<open>Throw (Thrown v)\<close> is \<^verbatim>\<open>throw v\<close>, and \<open>Throw e\<close> rethrows a caught \<open>e\<close>.
\<close>

datatype action =
    Return val
  | Throw exn
  | GetProp val string "val \<Rightarrow> action"
  | SetProp val string val action
  | CallFn val val "val list" "exn + val \<Rightarrow> action"
  | NewObj val "val list" "exn + val \<Rightarrow> action"

datatype host_fn = HObject | HToString

text \<open>
  What a function object does when called. \<open>Wrapped method signature base\<close> is the closure
  returned by \<^verbatim>\<open>wrapMethodToHaveSuper\<close>; \<open>Class initialize includes\<close> is the closure
  \<^verbatim>\<open>Class\<close> of \<^verbatim>\<open>create\<close> with the current values of the two variables it captures.
\<close>

datatype func =
    User "val \<Rightarrow> val list \<Rightarrow> action"
  | NoSuper
  | Wrapped val string val
  | Class val val
  | Host host_fn

record obj =
  props :: "(string \<times> descriptor) list"
  proto :: val
  code :: "func option"

record heap =
  objs :: "addr \<Rightarrow> obj"
  fresh :: addr

type_synonym 'a res = "(exn + 'a) \<times> heap"

definition alloc :: "heap \<Rightarrow> obj \<Rightarrow> addr \<times> heap" where
  "alloc h ob = (fresh h, h\<lparr>objs := (objs h)(fresh h := ob), fresh := Suc (fresh h)\<rparr>)"

subsection \<open>Keywords\<close>

definition SUPER :: string where "SUPER = ''super''"
definition INITIALIZE :: string where "INITIALIZE = ''initialize''"
definition EXTEND :: string where "EXTEND = ''extend''"
definition STATIC :: string where "STATIC = ''static''"
definition INCLUDE :: string where "INCLUDE = ''include''"
definition CONSTRUCTOR :: string where "CONSTRUCTOR = ''constructor''"
definition PROTOTYPE :: string where "PROTOTYPE = ''prototype''"
definition LENGTH :: string where "LENGTH = ''length''"

subsection \<open>The host objects and the module's own function\<close>

definition ObjectPrototype :: addr where "ObjectPrototype = 0"
definition FunctionPrototype :: addr where "FunctionPrototype = 1"
definition Object :: addr where "Object = 2"

text \<open>\<^verbatim>\<open>noSuper\<close> is created once, when the module is loaded.\<close>

definition noSuper :: addr where "noSuper = 3"

definition ReservedNameError :: exn where
  "ReservedNameError = Error ''Cannot create class, `super` is a reserved method name.''"

definition NoSuperclassMethodError :: exn where
  "NoSuperclassMethodError =
     Error ''Cannot call super, this method does not override a parent method''"

subsection \<open>Property access\<close>

definition getOwnPropertyDescriptor :: "heap \<Rightarrow> addr \<Rightarrow> string \<Rightarrow> descriptor option" where
  "getOwnPropertyDescriptor h a k = map_of (props (objs h a)) k"

text \<open>\<^verbatim>\<open>object[k]\<close> on an object: the first descriptor on the prototype chain.\<close>

function get :: "heap \<Rightarrow> addr \<Rightarrow> string \<Rightarrow> val" where
  "get h a k =
     (case getOwnPropertyDescriptor h a k of
        Some d \<Rightarrow> dvalue d
      | None \<Rightarrow>
          (case proto (objs h a) of
             Ref p \<Rightarrow> if p < a then get h p k else Undefined
           | _ \<Rightarrow> Undefined))"
  by pat_completeness auto
termination
  by (relation "measure (\<lambda>(h, a, k). a)") auto

declare get.simps [simp del]

text \<open>\<^verbatim>\<open>v[k]\<close> on any value; reading a property of \<^verbatim>\<open>undefined\<close> or \<^verbatim>\<open>null\<close> throws.\<close>

fun getV :: "heap \<Rightarrow> val \<Rightarrow> string \<Rightarrow> exn + val" where
  "getV h Undefined k = Inl TypeError"
| "getV h Null k = Inl TypeError"
| "getV h (Ref a) k = Inr (get h a k)"
| "getV h (Arr xs) k = Inr (if k = LENGTH then Num (int (length xs)) else Undefined)"
| "getV h (Str s) k = Inr (if k = LENGTH then Num (int (length s)) else Undefined)"
| "getV h v k = Inr Undefined"

text \<open>
  \<open>defineOwnProperty\<close> stores a descriptor among the own properties of an object, in
  place when the name is there and at the end otherwise. \<^verbatim>\<open>v[k] = x\<close> in strict mode:
  an own property keeps its attributes, a new one is enumerable and configurable;
  assigning to a property of a non-object throws.
\<close>

definition defineOwnProperty :: "heap \<Rightarrow> addr \<Rightarrow> string \<Rightarrow> descriptor \<Rightarrow> heap" where
  "defineOwnProperty h a k d =
     h\<lparr>objs := (objs h)(a := (objs h a)\<lparr>props := AList.update k d (props (objs h a))\<rparr>)\<rparr>"

definition put :: "heap \<Rightarrow> addr \<Rightarrow> string \<Rightarrow> val \<Rightarrow> heap" where
  "put h a k x =
     defineOwnProperty h a k
       (case getOwnPropertyDescriptor h a k of
          Some d \<Rightarrow> d\<lparr>dvalue := x\<rparr>
        | None \<Rightarrow> \<lparr>dvalue = x, enumerable = True, configurable = True\<rparr>)"

fun setV :: "heap \<Rightarrow> val \<Rightarrow> string \<Rightarrow> val \<Rightarrow> exn + heap" where
  "setV h (Ref a) k x = Inr (put h a k x)"
| "setV h v k x = Inl TypeError"

text \<open>
  \<^verbatim>\<open>Object.defineProperty(target, k, d)\<close> with a full data descriptor: a property that is
  not configurable can neither become configurable nor change its enumerability.
\<close>

fun defineProperty :: "heap \<Rightarrow> val \<Rightarrow> string \<Rightarrow> descriptor \<Rightarrow> unit res" where
  "defineProperty h (Ref a) k d =
     (case getOwnPropertyDescriptor h a k of
        Some e \<Rightarrow>
          if \<not> configurable e \<and> (configurable d \<or> enumerable d \<noteq> enumerable e)
          then (Inl TypeError, h)
          else (Inr (), defineOwnProperty h a k d)
      | None \<Rightarrow> (Inr (), defineOwnProperty h a k d))"
| "defineProperty h v k d = (Inl TypeError, h)"

definition hasOwnProperty :: "heap \<Rightarrow> addr \<Rightarrow> string \<Rightarrow> bool" where
  "hasOwnProperty h a k = (getOwnPropertyDescriptor h a k \<noteq> None)"

text \<open>
  \<^verbatim>\<open>for (var property in object)\<close>: the enumerable own properties in insertion order, then
  those of the prototype chain that no nearer object has under the same name.
\<close>

function for_in :: "heap \<Rightarrow> addr \<Rightarrow> string list" where
  "for_in h a =
     [k \<leftarrow> map fst (props (objs h a)).
        case getOwnPropertyDescriptor h a k of Some d \<Rightarrow> enumerable d | None \<Rightarrow> False] @
     [k \<leftarrow> (case proto (objs h a) of
              Ref p \<Rightarrow> if p < a then for_in h p else []
            | _ \<Rightarrow> []).
        \<not> hasOwnProperty h a k]"
  by pat_completeness auto
termination
  by (relation "measure (\<lambda>(h, a). a)") auto

declare for_in.simps [simp del]

definition truthy :: "val \<Rightarrow> bool" where
  "truthy v =
     (case v of
        Undefined \<Rightarrow> False
      | Null \<Rightarrow> False
      | Bool b \<Rightarrow> b
      | Num n \<Rightarrow> n \<noteq> 0
      | Str s \<Rightarrow> s \<noteq> []
      | _ \<Rightarrow> True)"

text \<open>\<^verbatim>\<open>typeof v === 'function'\<close>\<close>

definition callable :: "heap \<Rightarrow> val \<Rightarrow> bool" where
  "callable h v =
     (case v of
        Ref a \<Rightarrow> (case code (objs h a) of Some f \<Rightarrow> True | None \<Rightarrow> False)
      | _ \<Rightarrow> False)"

text \<open>
  Evaluating a function expression or declaration: the function object, and the object
  that is its initial \<^verbatim>\<open>prototype\<close> property, whose \<^verbatim>\<open>constructor\<close> points back.
\<close>

definition new_function :: "heap \<Rightarrow> func \<Rightarrow> addr \<times> heap" where
  "new_function h f =
     (let c = fresh h;
          p = Suc (fresh h)
      in (c, h\<lparr>objs := (objs h)
                 (c := \<lparr>props = [(PROTOTYPE, \<lparr>dvalue = Ref p, enumerable = False, configurable = False\<rparr>)],
                        proto = Ref FunctionPrototype, code = Some f\<rparr>,
                  p := \<lparr>props = [(CONSTRUCTOR, \<lparr>dvalue = Ref c, enumerable = False, configurable = True\<rparr>)],
                        proto = Ref ObjectPrototype, code = None\<rparr>),
               fresh := Suc (Suc (fresh h))\<rparr>))"

subsection \<open>Calling functions\<close>

text \<open>
  Client code and library code call each other through the heap, so a call may not
  terminate. \<open>call\<close> counts the depth of nested calls down from its first argument and
  returns \<open>None\<close> when the count is used up. \<open>exec\<close> runs a client procedure, \<open>callf\<close>
  being the interpreter for the calls it makes.
\<close>

type_synonym callf = "heap \<Rightarrow> val \<Rightarrow> val \<Rightarrow> val list \<Rightarrow> val res option"

text \<open>
  \<^verbatim>\<open>new f(args)\<close>: the instance is linked to \<^verbatim>\<open>f.prototype\<close>, or to
  \<^verbatim>\<open>Object.prototype\<close> when that is no object; an object returned by \<open>f\<close> replaces it.
\<close>

definition construct :: "callf \<Rightarrow> heap \<Rightarrow> val \<Rightarrow> val list \<Rightarrow> val res option" where
  "construct callf h f args =
     (if \<not> callable h f then Some (Inl TypeError, h)
      else
        (let p = (case getV h f PROTOTYPE of Inr (Ref p) \<Rightarrow> Ref p | _ \<Rightarrow> Ref ObjectPrototype);
             (this, h1) = alloc h \<lparr>props = [], proto = p, code = None\<rparr>
         in case callf h1 f (Ref this) args of
              None \<Rightarrow> None
            | Some (Inl e, h2) \<Rightarrow> Some (Inl e, h2)
            | Some (Inr v, h2) \<Rightarrow>
                Some (Inr (case v of Ref r \<Rightarrow> v | Arr xs \<Rightarrow> v | _ \<Rightarrow> Ref this), h2)))"

primrec exec :: "callf \<Rightarrow> action \<Rightarrow> heap \<Rightarrow> val res option" where
  "exec callf (Return v) h = Some (Inr v, h)"
| "exec callf (Throw e) h = Some (Inl e, h)"
| "exec callf (GetProp t k c) h =
     (case getV h t k of
        Inl e \<Rightarrow> Some (Inl e, h)
      | Inr v \<Rightarrow> exec callf (c v) h)"
| "exec callf (SetProp t k v c) h =
     (case setV h t k v of
        Inl e \<Rightarrow> Some (Inl e, h)
      | Inr h' \<Rightarrow> exec callf c h')"
| "exec callf (CallFn f t args c) h =
     (case callf h f t args of
        None \<Rightarrow> None
      | Some (r, h') \<Rightarrow> exec callf (c r) h')"
| "exec callf (NewObj f args c) h =
     (case construct callf h f args of
        None \<Rightarrow> None
      | Some (r, h') \<Rightarrow> exec callf (c r) h')"

text \<open>
  The two host functions. \<^verbatim>\<open>Object(v)\<close> returns \<open>v\<close> when it is an object and a new
  object otherwise (for a primitive the new object stands for its wrapper);
  \<^verbatim>\<open>Object.prototype.toString\<close> names the kind of its receiver.
\<close>

fun host :: "host_fn \<Rightarrow> heap \<Rightarrow> val \<Rightarrow> val list \<Rightarrow> val res" where
  "host HObject h this (Ref a # args) = (Inr (Ref a), h)"
| "host HObject h this (Arr xs # args) = (Inr (Arr xs), h)"
| "host HObject h this args =
     (let (a, h') = alloc h \<lparr>props = [], proto = Ref ObjectPrototype, code = None\<rparr>
      in (Inr (Ref a), h'))"
| "host HToString h this args =
     (Inr (Str (case this of
                  Undefined \<Rightarrow> ''[object Undefined]''
                | Null \<Rightarrow> ''[object Null]''
                | Bool b \<Rightarrow> ''[object Boolean]''
                | Num n \<Rightarrow> ''[object Number]''
                | Str s \<Rightarrow> ''[object String]''
                | Arr xs \<Rightarrow> ''[object Array]''
                | Ref a \<Rightarrow> if callable h this then ''[object Function]'' else ''[object Object]'')), h)"

text \<open>
  The elements \<^verbatim>\<open>includes[0]\<close> \<dots> \<^verbatim>\<open>includes[includes.length - 1]\<close> that
  \<^verbatim>\<open>for (var i = 0, l = includes.length; i < l; ++i)\<close> visits. A number or a boolean has
  no \<^verbatim>\<open>length\<close>, so nothing is visited; a string gives its characters. An object that is
  no array is covered when it has no \<^verbatim>\<open>length\<close>; array-like objects are not modelled.
\<close>

definition elements :: "heap \<Rightarrow> val \<Rightarrow> exn + val list" where
  "elements h v =
     (case v of
        Arr xs \<Rightarrow> Inr xs
      | Undefined \<Rightarrow> Inl TypeError
      | Null \<Rightarrow> Inl TypeError
      | Str s \<Rightarrow> Inr (map (\<lambda>c. Str [c]) s)
      | Ref a \<Rightarrow> if get h a LENGTH = Undefined then Inr [] else Inl TypeError
      | _ \<Rightarrow> Inr [])"

text \<open>The loop of \<^verbatim>\<open>Class\<close>: \<^verbatim>\<open>includes[i].call(this)\<close> for each element.\<close>

fun Class_includes :: "callf \<Rightarrow> heap \<Rightarrow> val list \<Rightarrow> val \<Rightarrow> unit res option" where
  "Class_includes callf h [] this = Some (Inr (), h)"
| "Class_includes callf h (x # xs) this =
     (case callf h x this [] of
        None \<Rightarrow> None
      | Some (Inl e, h') \<Rightarrow> Some (Inl e, h')
      | Some (Inr v, h') \<Rightarrow> Class_includes callf h' xs this)"

text \<open>The body of \<^verbatim>\<open>function Class ()\<close> in \<^verbatim>\<open>create\<close>.\<close>

definition Class_body :: "callf \<Rightarrow> heap \<Rightarrow> val \<Rightarrow> val \<Rightarrow> val \<Rightarrow> val list \<Rightarrow> val res option" where
  "Class_body callf h initialize includes this args =
     (case (if includes \<noteq> Undefined
            then (case elements h includes of
                    Inl e \<Rightarrow> Some (Inl e, h)
                  | Inr xs \<Rightarrow> Class_includes callf h xs this)
            else Some (Inr (), h)) of
        None \<Rightarrow> None
      | Some (Inl e, h1) \<Rightarrow> Some (Inl e, h1)
      | Some (Inr u, h1) \<Rightarrow>
          if initialize \<noteq> Undefined
          then (case callf h1 initialize this args of
                  None \<Rightarrow> None
                | Some (Inl e, h2) \<Rightarrow> Some (Inl e, h2)
                | Some (Inr v, h2) \<Rightarrow> Some (Inr Undefined, h2))
          else Some (Inr Undefined, h1))"

text \<open>
  The body of the function that \<^verbatim>\<open>wrapMethodToHaveSuper (method, signature, base)\<close>
  returns. The \<^verbatim>\<open>finally\<close> block runs whatever the outcome \<open>r\<close> of the method is.
\<close>

definition Wrapped_body :: "callf \<Rightarrow> heap \<Rightarrow> val \<Rightarrow> string \<Rightarrow> val \<Rightarrow> val \<Rightarrow> val list \<Rightarrow> val res option" where
  "Wrapped_body callf h method signature base this args =
     (case getV h this SUPER of
        Inl e \<Rightarrow> Some (Inl e, h)
      | Inr tmp \<Rightarrow>
          (case getV h base PROTOTYPE of
             Inl e \<Rightarrow> Some (Inl e, h)
           | Inr p \<Rightarrow>
               (case getV h p signature of
                  Inl e \<Rightarrow> Some (Inl e, h)
                | Inr m \<Rightarrow>
                    (case setV h this SUPER (if truthy m then m else Ref noSuper) of
                       Inl e \<Rightarrow> Some (Inl e, h)
                     | Inr h1 \<Rightarrow>
                         (case callf h1 method this args of
                            None \<Rightarrow> None
                          | Some (r, h2) \<Rightarrow>
                              (case setV h2 this SUPER tmp of
                                 Inl e \<Rightarrow> Some (Inl e, h2)
                               | Inr h3 \<Rightarrow> Some (r, h3)))))))"

fun invoke :: "callf \<Rightarrow> heap \<Rightarrow> func \<Rightarrow> val \<Rightarrow> val list \<Rightarrow> val res option" where
  "invoke callf h (User body) this args = exec callf (body this args) h"
| "invoke callf h NoSuper this args = Some (Inl NoSuperclassMethodError, h)"
| "invoke callf h (Wrapped method signature base) this args =
     Wrapped_body callf h method signature base this args"
| "invoke callf h (Class initialize includes) this args =
     Class_body callf h initialize includes this args"
| "invoke callf h (Host f) this args = Some (host f h this args)"

text \<open>\<^verbatim>\<open>f.apply(this, args)\<close>; what is not a function cannot be called.\<close>

primrec call :: "nat \<Rightarrow> callf" where
  "call 0 h f this args = None"
| "call (Suc n) h f this args =
     (case f of
        Ref a \<Rightarrow>
          (case code (objs h a) of
             Some fn \<Rightarrow> invoke (call n) h fn this args
           | None \<Rightarrow> Some (Inl TypeError, h))
      | _ \<Rightarrow> Some (Inl TypeError, h))"

subsection \<open>Helpers\<close>

text \<open>
  The source selects \<^verbatim>\<open>Object.create\<close> and \<^verbatim>\<open>Object.defineProperty\<close> when the host has
  them and falls back to a surrogate constructor and to plain assignment otherwise; the
  model is of a host that has them.
\<close>

definition createAnUnconstructedInstanceOfClass :: "heap \<Rightarrow> val \<Rightarrow> val res" where
  "createAnUnconstructedInstanceOfClass h clazz =
     (case getV h clazz PROTOTYPE of
        Inl e \<Rightarrow> (Inl e, h)
      | Inr (Ref p) \<Rightarrow>
          (let (a, h') = alloc h \<lparr>props = [], proto = Ref p, code = None\<rparr> in (Inr (Ref a), h'))
      | Inr Null \<Rightarrow>
          (let (a, h') = alloc h \<lparr>props = [], proto = Null, code = None\<rparr> in (Inr (Ref a), h'))
      | Inr v \<Rightarrow> (Inl TypeError, h))"

text \<open>
  The \<^verbatim>\<open>do \<dots> while\<close> loop of \<^verbatim>\<open>getPropertyDescriptor\<close>, entered with
  \<^verbatim>\<open>prototype = a\<close>. At the end of the chain \<^verbatim>\<open>Object.getPrototypeOf\<close> returns
  \<^verbatim>\<open>null\<close>, which is not \<^verbatim>\<open>undefined\<close>, and \<^verbatim>\<open>Object.getOwnPropertyDescriptor\<close>
  throws on it.
\<close>

function climb :: "heap \<Rightarrow> addr \<Rightarrow> string \<Rightarrow> exn + descriptor option" where
  "climb h a k =
     (case proto (objs h a) of
        Ref p \<Rightarrow>
          if p < a
          then (case getOwnPropertyDescriptor h p k of
                  Some d \<Rightarrow> Inr (Some d)
                | None \<Rightarrow> climb h p k)
          else Inl TypeError
      | _ \<Rightarrow> Inl TypeError)"
  by pat_completeness auto
termination
  by (relation "measure (\<lambda>(h, a, k). a)") auto

declare climb.simps [simp del]

definition getPropertyDescriptor :: "heap \<Rightarrow> addr \<Rightarrow> string \<Rightarrow> bool \<Rightarrow> exn + descriptor option" where
  "getPropertyDescriptor h object property deep =
     (case getOwnPropertyDescriptor h object property of
        Some descriptor \<Rightarrow> Inr (Some descriptor)
      | None \<Rightarrow> if deep then climb h object property else Inr None)"

definition copyProperty :: "heap \<Rightarrow> addr \<Rightarrow> val \<Rightarrow> string \<Rightarrow> bool \<Rightarrow> unit res" where
  "copyProperty h source target property deep =
     (case getPropertyDescriptor h source property deep of
        Inl e \<Rightarrow> (Inl e, h)
      | Inr None \<Rightarrow> (Inr (), h)
      | Inr (Some descriptor) \<Rightarrow> defineProperty h target property descriptor)"

fun copy_each :: "heap \<Rightarrow> addr \<Rightarrow> val \<Rightarrow> bool \<Rightarrow> string list \<Rightarrow> unit res" where
  "copy_each h source target deep [] = (Inr (), h)"
| "copy_each h source target deep (property # rest) =
     (if deep \<or> hasOwnProperty h source property
      then (case copyProperty h source target property deep of
              (Inl e, h') \<Rightarrow> (Inl e, h')
            | (Inr u, h') \<Rightarrow> copy_each h' source target deep rest)
      else copy_each h source target deep rest)"

text \<open>
  \<^verbatim>\<open>for (var property in source)\<close> visits nothing when \<open>source\<close> is no object; on a
  non-empty string it visits the indices, whose descriptors the host of the source's
  time (ECMAScript 5) refuses to give.
\<close>

definition copyProperties :: "heap \<Rightarrow> val \<Rightarrow> val \<Rightarrow> bool \<Rightarrow> unit res" where
  "copyProperties h source target deep =
     (case source of
        Ref s \<Rightarrow> copy_each h s target deep (for_in h s)
      | Str (c # cs) \<Rightarrow> (Inl TypeError, h)
      | Arr (x # xs) \<Rightarrow> (Inl TypeError, h)
      | _ \<Rightarrow> (Inr (), h))"

definition wrapMethodToHaveSuper :: "heap \<Rightarrow> val \<Rightarrow> string \<Rightarrow> val \<Rightarrow> addr \<times> heap" where
  "wrapMethodToHaveSuper h method signature base = new_function h (Wrapped method signature base)"

subsection \<open>create\<close>

text \<open>
  The variables \<^verbatim>\<open>initialize\<close> and \<^verbatim>\<open>includes\<close> of \<^verbatim>\<open>create\<close> are captured by
  \<^verbatim>\<open>Class\<close>; an assignment to one of them updates the closure kept in the function
  object \<open>cls\<close>.
\<close>

definition assign_initialize :: "heap \<Rightarrow> addr \<Rightarrow> val \<Rightarrow> heap" where
  "assign_initialize h cls v =
     (case code (objs h cls) of
        Some (Class initialize includes) \<Rightarrow>
          h\<lparr>objs := (objs h)(cls := (objs h cls)\<lparr>code := Some (Class v includes)\<rparr>)\<rparr>
      | _ \<Rightarrow> h)"

definition assign_includes :: "heap \<Rightarrow> addr \<Rightarrow> val \<Rightarrow> heap" where
  "assign_includes h cls v =
     (case code (objs h cls) of
        Some (Class initialize includes) \<Rightarrow>
          h\<lparr>objs := (objs h)(cls := (objs h cls)\<lparr>code := Some (Class initialize v)\<rparr>)\<rparr>
      | _ \<Rightarrow> h)"

text \<open>Step 2, Inherit; the result is the value of \<^verbatim>\<open>base\<close>.\<close>

definition inherit :: "heap \<Rightarrow> addr \<Rightarrow> val \<Rightarrow> val res" where
  "inherit h cls defn =
     (case getV h defn EXTEND of
        Inl e \<Rightarrow> (Inl e, h)
      | Inr base \<Rightarrow>
          if base = Undefined then (Inr (Ref Object), h)
          else
            (case createAnUnconstructedInstanceOfClass h base of
               (Inl e, h1) \<Rightarrow> (Inl e, h1)
             | (Inr inst, h1) \<Rightarrow>
                 (let h2 = put h1 cls PROTOTYPE inst
                  in case getV h2 base PROTOTYPE of
                       Inl e \<Rightarrow> (Inl e, h2)
                     | Inr p \<Rightarrow>
                         (case getV h2 p CONSTRUCTOR of
                            Inl e \<Rightarrow> (Inl e, h2)
                          | Inr ctor \<Rightarrow> (Inr base, assign_initialize h2 cls ctor)))))"

text \<open>Step 3, Mixin.\<close>

fun mixin_each :: "heap \<Rightarrow> addr \<Rightarrow> val list \<Rightarrow> unit res" where
  "mixin_each h cls [] = (Inr (), h)"
| "mixin_each h cls (x # xs) =
     (case createAnUnconstructedInstanceOfClass h x of
        (Inl e, h1) \<Rightarrow> (Inl e, h1)
      | (Inr include, h1) \<Rightarrow>
          (case copyProperties h1 include (get h1 cls PROTOTYPE) True of
             (Inl e, h2) \<Rightarrow> (Inl e, h2)
           | (Inr u, h2) \<Rightarrow> mixin_each h2 cls xs))"

definition mixin :: "heap \<Rightarrow> addr \<Rightarrow> val \<Rightarrow> unit res" where
  "mixin h cls defn =
     (case getV h defn INCLUDE of
        Inl e \<Rightarrow> (Inl e, h)
      | Inr includes \<Rightarrow>
          (let h1 = assign_includes h cls includes
           in if includes \<noteq> Undefined
              then (case elements h1 includes of
                      Inl e \<Rightarrow> (Inl e, h1)
                    | Inr xs \<Rightarrow> mixin_each h1 cls xs)
              else (Inr (), h1)))"

text \<open>Step 4, Define: the body of the loop for one own property of the definition.\<close>

definition define_member :: "heap \<Rightarrow> addr \<Rightarrow> addr \<Rightarrow> val \<Rightarrow> string \<Rightarrow> unit res" where
  "define_member h cls defn base property =
     (let member = get h defn property
      in if property = INITIALIZE then
           (let (w, h1) = wrapMethodToHaveSuper h member CONSTRUCTOR base
            in (Inr (), assign_initialize h1 cls (Ref w)))
         else if property = EXTEND \<or> property = INCLUDE then (Inr (), h)
         else if property = STATIC then copyProperties h member (Ref cls) False
         else if property = SUPER then (Inl ReservedNameError, h)
         else if callable h member then
           (let (w, h1) = wrapMethodToHaveSuper h member property base
            in case setV h1 (get h1 cls PROTOTYPE) property (Ref w) of
                 Inl e \<Rightarrow> (Inl e, h1)
               | Inr h2 \<Rightarrow> (Inr (), h2))
         else copyProperty h defn (get h cls PROTOTYPE) property False)"

fun define_each :: "heap \<Rightarrow> addr \<Rightarrow> addr \<Rightarrow> val \<Rightarrow> string list \<Rightarrow> unit res" where
  "define_each h cls defn base [] = (Inr (), h)"
| "define_each h cls defn base (property # rest) =
     (if hasOwnProperty h defn property
      then (case define_member h cls defn base property of
              (Inl e, h') \<Rightarrow> (Inl e, h')
            | (Inr u, h') \<Rightarrow> define_each h' cls defn base rest)
      else define_each h cls defn base rest)"

text \<open>
  A definition that is no object has no properties to visit, except a non-empty string,
  whose indices end in the host's refusal as in \<open>copyProperties\<close>.
\<close>

definition define_all :: "heap \<Rightarrow> addr \<Rightarrow> val \<Rightarrow> val \<Rightarrow> unit res" where
  "define_all h cls defn base =
     (case defn of
        Ref d \<Rightarrow> define_each h cls d base (for_in h d)
      | Str (c # cs) \<Rightarrow> (Inl TypeError, h)
      | Arr (x # xs) \<Rightarrow> (Inl TypeError, h)
      | _ \<Rightarrow> (Inr (), h))"

definition create :: "heap \<Rightarrow> val \<Rightarrow> val res" where
  "create h definition0 =
     (let (defn, h0) =
            (if definition0 = Undefined
             then (let (a, h') = alloc h \<lparr>props = [], proto = Ref ObjectPrototype, code = None\<rparr>
                   in (Ref a, h'))
             else (definition0, h));
          (cls, h1) = new_function h0 (Class Undefined Undefined)
      in case inherit h1 cls defn of
           (Inl e, h2) \<Rightarrow> (Inl e, h2)
         | (Inr base, h2) \<Rightarrow>
             (case mixin h2 cls defn of
                (Inl e, h3) \<Rightarrow> (Inl e, h3)
              | (Inr u, h3) \<Rightarrow>
                  (case define_all h3 cls defn base of
                     (Inl e, h4) \<Rightarrow> (Inl e, h4)
                   | (Inr u, h4) \<Rightarrow>
                       (case setV h4 (get h4 cls PROTOTYPE) CONSTRUCTOR (Ref cls) of
                          Inl e \<Rightarrow> (Inl e, h4)
                        | Inr h5 \<Rightarrow> (Inr (Ref cls), h5)))))"

subsection \<open>The heap after loading the module\<close>

text \<open>
  \<^verbatim>\<open>Object.prototype\<close> with its \<^verbatim>\<open>constructor\<close> and \<^verbatim>\<open>toString\<close> (its other built-in
  methods are left out), \<^verbatim>\<open>Function.prototype\<close>, \<^verbatim>\<open>Object\<close>, and \<^verbatim>\<open>noSuper\<close>. The
  built-in properties are not enumerable.
\<close>

definition module_heap :: heap where
  "module_heap =
     \<lparr>objs = (\<lambda>a. \<lparr>props = [], proto = Null, code = None\<rparr>)
        (ObjectPrototype :=
           \<lparr>props = [(CONSTRUCTOR, \<lparr>dvalue = Ref Object, enumerable = False, configurable = True\<rparr>),
                     (''toString'', \<lparr>dvalue = Ref 4, enumerable = False, configurable = True\<rparr>)],
            proto = Null, code = None\<rparr>,
         FunctionPrototype := \<lparr>props = [], proto = Ref ObjectPrototype, code = None\<rparr>,
         Object :=
           \<lparr>props = [(PROTOTYPE, \<lparr>dvalue = Ref ObjectPrototype, enumerable = False, configurable = False\<rparr>)],
            proto = Ref FunctionPrototype, code = Some (Host HObject)\<rparr>,
         noSuper :=
           \<lparr>props = [(PROTOTYPE, \<lparr>dvalue = Ref 5, enumerable = False, configurable = False\<rparr>)],
            proto = Ref FunctionPrototype, code = Some NoSuper\<rparr>,
         4 := \<lparr>props = [], proto = Ref FunctionPrototype, code = Some (Host HToString)\<rparr>,
         5 := \<lparr>props = [(CONSTRUCTOR, \<lparr>dvalue = Ref noSuper, enumerable = False, configurable = True\<rparr>)],
               proto = Ref ObjectPrototype, code = None\<rparr>),
      fresh = 6\<rparr>"

text \<open>An object literal \<^verbatim>\<open>{k1: v1, \<dots>}\<close> and a function expression of client code.\<close>

definition object_literal :: "heap \<Rightarrow> (string \<times> val) list \<Rightarrow> addr \<times> heap" where
  "object_literal h kvs =
     alloc h \<lparr>props = map (\<lambda>(k, v). (k, \<lparr>dvalue = v, enumerable = True, configurable = True\<rparr>)) kvs,
              proto = Ref ObjectPrototype, code = None\<rparr>"

subsection \<open>Notions used in the statements\<close>

text \<open>The first descriptor for \<open>k\<close> on the prototype chain that starts at \<open>a\<close>.\<close>

function lookup :: "heap \<Rightarrow> addr \<Rightarrow> string \<Rightarrow> descriptor option" where
  "lookup h a k =
     (case getOwnPropertyDescriptor h a k of
        Some d \<Rightarrow> Some d
      | None \<Rightarrow>
          (case proto (objs h a) of
             Ref p \<Rightarrow> if p < a then lookup h p k else None
           | _ \<Rightarrow> None))"
  by pat_completeness auto
termination
  by (relation "measure (\<lambda>(h, a, k). a)") auto

declare lookup.simps [simp del]

text \<open>
  The members a class hands to a class that includes it: the enumerable properties found
  along the chain of its prototype.
\<close>

definition enumerable_member :: "heap \<Rightarrow> addr \<Rightarrow> string \<Rightarrow> val option" where
  "enumerable_member h a k =
     (case lookup h a k of
        Some d \<Rightarrow> if enumerable d then Some (dvalue d) else None
      | None \<Rightarrow> None)"

definition own_enumerable :: "heap \<Rightarrow> addr \<Rightarrow> string \<Rightarrow> val option" where
  "own_enumerable h a k =
     (case getOwnPropertyDescriptor h a k of
        Some d \<Rightarrow> if enumerable d then Some (dvalue d) else None
      | None \<Rightarrow> None)"

text \<open>The keys of a definition that \<^verbatim>\<open>create\<close> does not treat as members.\<close>

definition keyword :: "string \<Rightarrow> bool" where
  "keyword k \<longleftrightarrow> k = INITIALIZE \<or> k = EXTEND \<or> k = INCLUDE \<or> k = STATIC \<or> k = SUPER"


definition own_values :: "heap \<Rightarrow> addr \<Rightarrow> string \<Rightarrow> val option" where
  "own_values h a k = map_option dvalue (getOwnPropertyDescriptor h a k)"

text \<open>
  The member named \<open>k\<close> that the classes \<open>xs\<close>, included in this order, hand over: that
  of the last class that has one.
\<close>

fun mixin_members :: "heap \<Rightarrow> val list \<Rightarrow> string \<Rightarrow> val option" where
  "mixin_members h [] k = None"
| "mixin_members h (x # xs) k =
     (case mixin_members h xs k of
        Some v \<Rightarrow> Some v
      | None \<Rightarrow>
          (case x of
             Ref m \<Rightarrow> (case get h m PROTOTYPE of Ref mp \<Rightarrow> enumerable_member h mp k | _ \<Rightarrow> None)
           | _ \<Rightarrow> None))"

text \<open>
  Relations between heaps for the proofs about \<^verbatim>\<open>create\<close>: \<open>h'\<close> differs from \<open>h\<close>
  in the own properties of \<open>t\<close> at most; the same, up to objects allocated since; a step
  of \<^verbatim>\<open>create\<close>, which may also update the class itself; and the state of a class \<open>c\<close> under
  construction, whose \<^verbatim>\<open>prototype\<close> property holds \<open>pa\<close>, both allocated by this
  \<^verbatim>\<open>create\<close> (the heap before it ended at \<open>N\<close>).
\<close>

definition same_but_props :: "addr \<Rightarrow> heap \<Rightarrow> heap \<Rightarrow> bool" where
  "same_but_props t h h' \<longleftrightarrow>
     fresh h' = fresh h \<and> (\<forall>a. a \<noteq> t \<longrightarrow> objs h' a = objs h a) \<and>
     proto (objs h' t) = proto (objs h t) \<and> code (objs h' t) = code (objs h t)"

definition grows_but :: "addr \<Rightarrow> heap \<Rightarrow> heap \<Rightarrow> bool" where
  "grows_but t h h' \<longleftrightarrow>
     fresh h \<le> fresh h' \<and> (\<forall>a. a < fresh h \<longrightarrow> a \<noteq> t \<longrightarrow> objs h' a = objs h a) \<and>
     proto (objs h' t) = proto (objs h t) \<and> code (objs h' t) = code (objs h t)"

definition class_step :: "addr \<Rightarrow> addr \<Rightarrow> heap \<Rightarrow> heap \<Rightarrow> bool" where
  "class_step c pa h h' \<longleftrightarrow>
     fresh h \<le> fresh h' \<and>
     (\<forall>a. a < fresh h \<longrightarrow> a \<noteq> c \<longrightarrow> a \<noteq> pa \<longrightarrow> objs h' a = objs h a) \<and>
     proto (objs h' pa) = proto (objs h pa) \<and> code (objs h' pa) = code (objs h pa) \<and>
     proto (objs h' c) = proto (objs h c)"

definition class_inv :: "addr \<Rightarrow> addr \<Rightarrow> addr \<Rightarrow> heap \<Rightarrow> bool" where
  "class_inv N c pa h \<longleftrightarrow>
     N \<le> c \<and> N \<le> pa \<and> c \<noteq> pa \<and> c < fresh h \<and> pa < fresh h \<and>
     getOwnPropertyDescriptor h c PROTOTYPE =
       Some \<lparr>dvalue = Ref pa, enumerable = False, configurable = False\<rparr>"

subsection \<open>Client programs used as examples\<close>

text \<open>
  \<^verbatim>\<open>function () { return v; }\<close> and
  \<^verbatim>\<open>function () { return this.super.apply(this, arguments); }\<close>
\<close>

definition returning :: "val \<Rightarrow> func" where
  "returning v = User (\<lambda>this args. Return v)"

definition super_call :: func where
  "super_call =
     User (\<lambda>this args. GetProp this SUPER (\<lambda>s. CallFn s this args
       (\<lambda>r. case r of Inl e \<Rightarrow> Throw e | Inr v \<Rightarrow> Return v)))"

text \<open>
  Nested calls.
  \<^verbatim>\<open>
  var Base = Clazzy.create({ a : function () { return 'base a'; },
                             b : function () { return 'base b'; } });
  var Sub  = Clazzy.create({ extend : Base,
                             a : function () { try { this.b(); } catch (e) {}
                                               return this.super(); },
                             b : function () { this.super(); throw 'boom'; } });
  \<close>
  The objects are allocated in this order: the two functions of \<^verbatim>\<open>Base\<close>'s definition
  (6 and 8, each followed by its prototype object), the definition (10), \<^verbatim>\<open>Base\<close> (11)
  with its prototype (12) and the wrapped methods (13, 15); the two functions of
  \<^verbatim>\<open>Sub\<close>'s definition (17, 19), the definition (21), \<^verbatim>\<open>Sub\<close> (22) with its
  prototype (24) and the wrapped methods (25, 27); last an instance of \<^verbatim>\<open>Sub\<close> (29).
\<close>

definition nested_a :: func where
  "nested_a =
     User (\<lambda>this args. GetProp this ''b'' (\<lambda>b. CallFn b this []
       (\<lambda>caught. GetProp this SUPER (\<lambda>s. CallFn s this []
          (\<lambda>r. case r of Inl e \<Rightarrow> Throw e | Inr v \<Rightarrow> Return v)))))"

definition nested_b :: func where
  "nested_b =
     User (\<lambda>this args. GetProp this SUPER (\<lambda>s. CallFn s this []
       (\<lambda>r. Throw (Thrown (Str ''boom'')))))"

definition nested1 :: heap where
  "nested1 = snd (new_function module_heap (returning (Str ''base a'')))"
definition nested2 :: heap where
  "nested2 = snd (new_function nested1 (returning (Str ''base b'')))"
definition nested3 :: heap where
  "nested3 = snd (object_literal nested2 [(''a'', Ref 6), (''b'', Ref 8)])"
definition nested4 :: heap where
  "nested4 = snd (create nested3 (Ref 10))"
definition nested5 :: heap where
  "nested5 = snd (new_function nested4 nested_a)"
definition nested6 :: heap where
  "nested6 = snd (new_function nested5 nested_b)"
definition nested7 :: heap where
  "nested7 = snd (object_literal nested6 [(EXTEND, Ref 11), (''a'', Ref 17), (''b'', Ref 19)])"
definition nested8 :: heap where
  "nested8 = snd (create nested7 (Ref 21))"
definition nested_heap :: heap where
  "nested_heap = snd (alloc nested8 \<lparr>props = [], proto = Ref 24, code = None\<rparr>)"



text \<open>
  Constructors. \<open>recording name\<close> appends its name and the arguments it receives to the
  list \<^verbatim>\<open>this.log\<close>.
  \<^verbatim>\<open>
  var A = Clazzy.create({ initialize : recording('A') });     // class 9
  var B = Clazzy.create({ initialize : recording('B') });     // class 16
  var C = Clazzy.create({ include : [A, B], initialize : recording('C') });
                                                              // definition 22, class 23
  var c = new C(1, 2);                                        // instance 29
  \<close>
\<close>

definition recording :: "string \<Rightarrow> func" where
  "recording name =
     User (\<lambda>this args. GetProp this ''log'' (\<lambda>l.
       SetProp this ''log'' (Arr ((case l of Arr xs \<Rightarrow> xs | _ \<Rightarrow> []) @ [Arr (Str name # args)]))
         (Return Undefined)))"

definition order1 :: heap where
  "order1 = snd (new_function module_heap (recording ''A''))"
definition order2 :: heap where
  "order2 = snd (object_literal order1 [(INITIALIZE, Ref 6)])"
definition order3 :: heap where
  "order3 = snd (create order2 (Ref 8))"

text \<open>
  The default initializer.
  \<^verbatim>\<open>
  var Sub = Clazzy.create({ extend : A });                    // definition 13, class 14
  var sub = new Sub(1, 2);                                    // instance 17
  \<close>
\<close>

definition default1 :: heap where
  "default1 = snd (object_literal order3 [(EXTEND, Ref 9)])"
definition default2 :: heap where
  "default2 = snd (create default1 (Ref 13))"
definition default_heap :: heap where
  "default_heap = snd (alloc default2 \<lparr>props = [], proto = Ref 16, code = None\<rparr>)"


text \<open>
  A method injected into the base.
  \<^verbatim>\<open>
  var Base = Clazzy.create({});                                // class 7, prototype 8
  var Sub = Clazzy.create({ extend : Base,
    m : function () { return this.super.apply(this, arguments); } });
                                    // definition 11, class 12, prototype 14, wrapper 15
  var early = new Sub();                        // instance 17, in \<open>early_heap\<close> only
  Base.prototype.m = function () { return 'late'; };          // function 17
  var sub = new Sub();                                        // instance 19
  \<close>
\<close>

definition late1 :: heap where
  "late1 = snd (object_literal module_heap [])"
definition late2 :: heap where
  "late2 = snd (create late1 (Ref 6))"
definition late3 :: heap where
  "late3 = snd (new_function late2 super_call)"
definition late4 :: heap where
  "late4 = snd (object_literal late3 [(EXTEND, Ref 7), (''m'', Ref 9)])"
definition late5 :: heap where
  "late5 = snd (create late4 (Ref 11))"
definition early_heap :: heap where
  "early_heap = snd (alloc late5 \<lparr>props = [], proto = Ref 14, code = None\<rparr>)"
definition late6 :: heap where
  "late6 = snd (new_function late5 (returning (Str ''late'')))"
definition late7 :: heap where
  "late7 = put late6 8 ''m'' (Ref 17)"
definition late_heap :: heap where
  "late_heap = snd (alloc late7 \<lparr>props = [], proto = Ref 14, code = None\<rparr>)"




text \<open>
  An included method that calls \<^verbatim>\<open>super\<close>.
  \<^verbatim>\<open>
  var B = Clazzy.create({ m : function () { return 'B'; } });  // class 9, prototype 10
  var M = Clazzy.create({ m : function () { return this.super.apply(this, arguments); } });
                                                              // class 16, wrapper of m 18
  var C = Clazzy.create({ extend : B, include : [M] });       // definition 20, prototype 23
  var c = new C();                                            // instance 25
  \<close>
\<close>

definition mixin1 :: heap where
  "mixin1 = snd (new_function module_heap (returning (Str ''B'')))"
definition mixin2 :: heap where
  "mixin2 = snd (object_literal mixin1 [(''m'', Ref 6)])"
definition mixin3 :: heap where
  "mixin3 = snd (create mixin2 (Ref 8))"
definition mixin4 :: heap where
  "mixin4 = snd (new_function mixin3 super_call)"
definition mixin5 :: heap where
  "mixin5 = snd (object_literal mixin4 [(''m'', Ref 13)])"
definition mixin6 :: heap where
  "mixin6 = snd (create mixin5 (Ref 15))"
definition mixin7 :: heap where
  "mixin7 = snd (object_literal mixin6 [(EXTEND, Ref 9), (INCLUDE, Arr [Ref 16])])"
definition mixin8 :: heap where
  "mixin8 = snd (create mixin7 (Ref 20))"
definition mixin_heap :: heap where
  "mixin_heap = snd (alloc mixin8 \<lparr>props = [], proto = Ref 23, code = None\<rparr>)"

text \<open>
  A class without \<^verbatim>\<open>extend\<close> whose initializer calls \<^verbatim>\<open>super\<close>.
  \<^verbatim>\<open>
  var Root = Clazzy.create({ initialize : function () { return this.super.apply(this, arguments); } });
                                                    // definition 8, class 9, prototype 10
  var root = new Root();                            // instance 13
  \<close>
\<close>

definition root1 :: heap where
  "root1 = snd (new_function module_heap super_call)"
definition root2 :: heap where
  "root2 = snd (object_literal root1 [(INITIALIZE, Ref 6)])"
definition root3 :: heap where
  "root3 = snd (create root2 (Ref 8))"
definition root_heap :: heap where
  "root_heap = snd (alloc root3 \<lparr>props = [], proto = Ref 10, code = None\<rparr>)"

section \<open>Properties\<close>

subsection \<open>Evaluation\<close>

lemma key_eq:
  "(SUPER = k) = (k = ''super'')" "(k = SUPER) = (k = ''super'')"
  "(INITIALIZE = k) = (k = ''initialize'')" "(k = INITIALIZE) = (k = ''initialize'')"
  "(EXTEND = k) = (k = ''extend'')" "(k = EXTEND) = (k = ''extend'')"
  "(STATIC = k) = (k = ''static'')" "(k = STATIC) = (k = ''static'')"
  "(INCLUDE = k) = (k = ''include'')" "(k = INCLUDE) = (k = ''include'')"
  "(CONSTRUCTOR = k) = (k = ''constructor'')" "(k = CONSTRUCTOR) = (k = ''constructor'')"
  "(PROTOTYPE = k) = (k = ''prototype'')" "(k = PROTOTYPE) = (k = ''prototype'')"
  "(LENGTH = k) = (k = ''length'')" "(k = LENGTH) = (k = ''length'')"
  by (auto simp: SUPER_def INITIALIZE_def EXTEND_def STATIC_def INCLUDE_def CONSTRUCTOR_def
      PROTOTYPE_def LENGTH_def)

lemmas eval =
  create_def inherit_def mixin_def define_all_def define_member_def
  new_function_def alloc_def object_literal_def module_heap_def wrapMethodToHaveSuper_def
  assign_initialize_def assign_includes_def copyProperties_def copyProperty_def
  getPropertyDescriptor_def getOwnPropertyDescriptor_def hasOwnProperty_def put_def
  defineOwnProperty_def callable_def truthy_def elements_def
  createAnUnconstructedInstanceOfClass_def construct_def Class_body_def Wrapped_body_def
  key_eq ObjectPrototype_def FunctionPrototype_def Object_def noSuper_def
  NoSuperclassMethodError_def ReservedNameError_def returning_def super_call_def
  get.simps for_in.simps climb.simps split_def Let_def eval_nat_numeral

lemmas nested_defs =
  nested1_def nested2_def nested3_def nested4_def nested5_def nested6_def nested7_def
  nested8_def nested_heap_def nested_a_def nested_b_def

subsection \<open>Properties and the prototype chain\<close>

lemma key_neq:
  "PROTOTYPE \<noteq> LENGTH" "LENGTH \<noteq> PROTOTYPE" "PROTOTYPE \<noteq> CONSTRUCTOR" "CONSTRUCTOR \<noteq> PROTOTYPE"
  "SUPER \<noteq> LENGTH" "EXTEND \<noteq> LENGTH" "INCLUDE \<noteq> LENGTH" "CONSTRUCTOR \<noteq> LENGTH"
  "INITIALIZE \<noteq> EXTEND" "INITIALIZE \<noteq> INCLUDE" "INITIALIZE \<noteq> STATIC" "INITIALIZE \<noteq> SUPER"
  "EXTEND \<noteq> INCLUDE" "EXTEND \<noteq> STATIC" "EXTEND \<noteq> SUPER" "INCLUDE \<noteq> STATIC"
  "INCLUDE \<noteq> SUPER" "STATIC \<noteq> SUPER"
  "EXTEND \<noteq> INITIALIZE" "INCLUDE \<noteq> INITIALIZE" "STATIC \<noteq> INITIALIZE" "SUPER \<noteq> INITIALIZE"
  "INCLUDE \<noteq> EXTEND" "STATIC \<noteq> EXTEND" "SUPER \<noteq> EXTEND" "STATIC \<noteq> INCLUDE"
  "SUPER \<noteq> INCLUDE" "SUPER \<noteq> STATIC"
  by (simp_all add: SUPER_def INITIALIZE_def EXTEND_def STATIC_def INCLUDE_def CONSTRUCTOR_def
      PROTOTYPE_def LENGTH_def)

lemma get_lookup: "get h a k = (case lookup h a k of Some d \<Rightarrow> dvalue d | None \<Rightarrow> Undefined)"
proof (induction h a k rule: get.induct)
  case (1 h a k)
  have rec: "\<And>p. getOwnPropertyDescriptor h a k = None \<Longrightarrow> proto (objs h a) = Ref p \<Longrightarrow> p < a \<Longrightarrow>
     get h p k = (case lookup h p k of Some d \<Rightarrow> dvalue d | None \<Rightarrow> Undefined)"
    using 1 by blast
  show ?case
    by (simp add: get.simps [of h a k] lookup.simps [of h a k] rec split: option.split val.split)
qed


lemma lookup_cong:
  assumes "\<And>x. x \<le> a \<Longrightarrow> objs h' x = objs h x"
  shows "lookup h' a k = lookup h a k"
  using assms
proof (induction h a k rule: lookup.induct)
  case (1 h a k)
  have own: "objs h' a = objs h a"
    using 1(2) by simp
  have rec: "\<And>p. getOwnPropertyDescriptor h a k = None \<Longrightarrow> proto (objs h a) = Ref p \<Longrightarrow> p < a \<Longrightarrow>
     lookup h' p k = lookup h p k"
  proof -
    fix p
    assume a: "getOwnPropertyDescriptor h a k = None" "proto (objs h a) = Ref p" "p < a"
    have "\<And>x. x \<le> p \<Longrightarrow> objs h' x = objs h x"
      using 1(2) a(3) by simp
    then show "lookup h' p k = lookup h p k"
      using 1(1) a by blast
  qed
  show ?case
    by (simp add: lookup.simps [of h' a k] lookup.simps [of h a k] own rec getOwnPropertyDescriptor_def
          split: option.split val.split)
qed

lemma get_cong:
  assumes "\<And>x. x \<le> a \<Longrightarrow> objs h' x = objs h x"
  shows "get h' a k = get h a k"
  using lookup_cong [of a h' h k, OF assms] by (simp add: get_lookup)

lemma for_in_cong:
  assumes "\<And>x. x \<le> a \<Longrightarrow> objs h' x = objs h x"
  shows "for_in h' a = for_in h a"
  using assms
proof (induction h a rule: for_in.induct)
  case (1 h a)
  have own: "objs h' a = objs h a"
    using 1(2) by simp
  have rec: "\<And>p. proto (objs h a) = Ref p \<Longrightarrow> p < a \<Longrightarrow> for_in h' p = for_in h p"
  proof -
    fix p
    assume a: "proto (objs h a) = Ref p" "p < a"
    have "\<And>x. x \<le> p \<Longrightarrow> objs h' x = objs h x"
      using 1(2) a(2) by simp
    then show "for_in h' p = for_in h p"
      using 1(1) a by blast
  qed
  show ?case
    by (simp add: for_in.simps [of h' a] for_in.simps [of h a] own rec getOwnPropertyDescriptor_def
          hasOwnProperty_def split: val.split)
qed


lemma for_in_iff: "k \<in> set (for_in h a) \<longleftrightarrow> (\<exists>d. lookup h a k = Some d \<and> enumerable d)"
proof (induction h a arbitrary: k rule: for_in.induct)
  case (1 h a)
  define inh where "inh = (case proto (objs h a) of Ref p \<Rightarrow> if p < a then for_in h p else [] | _ \<Rightarrow> [])"
  define lk where "lk = (case proto (objs h a) of Ref p \<Rightarrow> if p < a then lookup h p k else None | _ \<Rightarrow> None)"
  have inh: "k \<in> set inh \<longleftrightarrow> (\<exists>d. lk = Some d \<and> enumerable d)"
  proof (cases "proto (objs h a)")
    case (Ref p)
    then show ?thesis
      using 1 [of p k] by (simp add: inh_def lk_def)
  qed (simp_all add: inh_def lk_def)
  have f: "for_in h a =
     [k \<leftarrow> map fst (props (objs h a)).
        case getOwnPropertyDescriptor h a k of Some d \<Rightarrow> enumerable d | None \<Rightarrow> False] @
     [k \<leftarrow> inh. \<not> hasOwnProperty h a k]"
    unfolding inh_def by (rule for_in.simps)
  have l: "lookup h a k = (case getOwnPropertyDescriptor h a k of Some d \<Rightarrow> Some d | None \<Rightarrow> lk)"
    unfolding lk_def by (rule lookup.simps)
  show ?case
  proof (cases "map_of (props (objs h a)) k")
    case None
    then have notin: "k \<notin> fst ` set (props (objs h a))"
      by (simp add: map_of_eq_None_iff)
    show ?thesis
      using None notin inh by (simp add: f l getOwnPropertyDescriptor_def hasOwnProperty_def)
  next
    case (Some d)
    then have isin: "k \<in> fst ` set (props (objs h a))"
      using map_of_eq_None_iff [of "props (objs h a)" k] by simp
    show ?thesis
      using Some isin by (simp add: f l getOwnPropertyDescriptor_def hasOwnProperty_def)
  qed
qed


lemma getOwn_defineOwn:
  "getOwnPropertyDescriptor (defineOwnProperty h a k d) a' k' =
     (if a' = a \<and> k' = k then Some d else getOwnPropertyDescriptor h a' k')"
  by (simp add: getOwnPropertyDescriptor_def defineOwnProperty_def AList.update_conv')

lemma objs_defineOwn_other: "a' \<noteq> a \<Longrightarrow> objs (defineOwnProperty h a k d) a' = objs h a'"
  by (simp add: defineOwnProperty_def)

lemma fresh_defineOwn: "fresh (defineOwnProperty h a k d) = fresh h"
  by (simp add: defineOwnProperty_def)

lemma proto_defineOwn: "proto (objs (defineOwnProperty h a k d) a') = proto (objs h a')"
  by (simp add: defineOwnProperty_def)

lemma code_defineOwn: "code (objs (defineOwnProperty h a k d) a') = code (objs h a')"
  by (simp add: defineOwnProperty_def)

lemma get_defineOwn_same: "get (defineOwnProperty h a k d) a k = dvalue d"
  by (subst get.simps) (simp add: getOwn_defineOwn)

lemma get_put_same: "get (put h a k x) a k = x"
  unfolding put_def by (simp add: get_defineOwn_same split: option.split)

lemma objs_put_other: "a' \<noteq> a \<Longrightarrow> objs (put h a k x) a' = objs h a'"
  by (simp add: put_def objs_defineOwn_other)

lemma fresh_put: "fresh (put h a k x) = fresh h"
  by (simp add: put_def fresh_defineOwn)

lemma proto_put: "proto (objs (put h a k x) a') = proto (objs h a')"
  by (simp add: put_def proto_defineOwn)

lemma code_put: "code (objs (put h a k x) a') = code (objs h a')"
  by (simp add: put_def code_defineOwn)

lemma getOwn_put:
  "getOwnPropertyDescriptor (put h a k x) a' k' =
     (if a' = a \<and> k' = k
      then Some (case getOwnPropertyDescriptor h a k of
                   Some d \<Rightarrow> d\<lparr>dvalue := x\<rparr>
                 | None \<Rightarrow> \<lparr>dvalue = x, enumerable = True, configurable = True\<rparr>)
      else getOwnPropertyDescriptor h a' k')"
  by (simp add: put_def getOwn_defineOwn)

lemma climb_lookup:
  "climb h a k =
     (case (case proto (objs h a) of Ref p \<Rightarrow> if p < a then lookup h p k else None | _ \<Rightarrow> None) of
        Some d \<Rightarrow> Inr (Some d)
      | None \<Rightarrow> Inl TypeError)"
proof (induction h a k rule: climb.induct)
  case (1 h a k)
  show ?case
  proof (cases "proto (objs h a)")
    case (Ref p)
    show ?thesis
    proof (cases "p < a")
      case True
      show ?thesis
      proof (cases "getOwnPropertyDescriptor h p k")
        case None
        then show ?thesis
          using Ref True 1 [of p]
          by (simp add: climb.simps [of h a k] lookup.simps [of h p k])
      next
        case (Some d)
        then show ?thesis
          using Ref True by (simp add: climb.simps [of h a k] lookup.simps [of h p k])
      qed
    next
      case False
      then show ?thesis
        using Ref by (simp add: climb.simps [of h a k])
    qed
  qed (simp_all add: climb.simps [of h a k])
qed

lemma getPropertyDescriptor_error: "getPropertyDescriptor h s k deep = Inl e \<Longrightarrow> e = TypeError"
  by (auto simp: getPropertyDescriptor_def climb_lookup split: option.splits if_splits)

lemma defineProperty_cases:
  assumes "defineProperty h (Ref t) k d = (r, h')"
  shows "(r = Inl TypeError \<and> h' = h \<and>
            (\<exists>e. getOwnPropertyDescriptor h t k = Some e \<and> \<not> configurable e \<and>
                  (configurable d \<or> enumerable d \<noteq> enumerable e))) \<or>
         (r = Inr () \<and> h' = defineOwnProperty h t k d \<and>
            (\<forall>e. getOwnPropertyDescriptor h t k = Some e \<and> \<not> configurable e \<longrightarrow>
                 \<not> configurable d \<and> enumerable d = enumerable e))"
  using assms by (auto split: option.splits if_splits)

lemma copyProperty_cases:
  assumes "copyProperty h s (Ref t) k deep = (r, h')"
  shows "(r = Inl TypeError \<and> h' = h) \<or>
         (r = Inr () \<and> h' = h \<and> getPropertyDescriptor h s k deep = Inr None) \<or>
         (\<exists>d. r = Inr () \<and> getPropertyDescriptor h s k deep = Inr (Some d) \<and>
              h' = defineOwnProperty h t k d \<and>
              (\<forall>e. getOwnPropertyDescriptor h t k = Some e \<and> \<not> configurable e \<longrightarrow>
                   \<not> configurable d \<and> enumerable d = enumerable e))"
proof (cases "getPropertyDescriptor h s k deep")
  case (Inl e)
  have "e = TypeError"
    using Inl by (rule getPropertyDescriptor_error)
  then show ?thesis
    using assms Inl by (simp add: copyProperty_def)
next
  case (Inr od)
  show ?thesis
  proof (cases od)
    case None
    then show ?thesis using assms Inr by (simp add: copyProperty_def)
  next
    case (Some d)
    then show ?thesis
      using assms Inr defineProperty_cases [of h t k d r h']
      by (simp add: copyProperty_def) blast
  qed
qed

subsection \<open>What the helpers leave unchanged\<close>

lemma same_but_props_refl: "same_but_props t h h"
  by (simp add: same_but_props_def)

lemma same_but_props_trans:
  "same_but_props t h h1 \<Longrightarrow> same_but_props t h1 h2 \<Longrightarrow> same_but_props t h h2"
  by (simp add: same_but_props_def)

lemma same_but_props_defineOwn: "same_but_props t h (defineOwnProperty h t k d)"
  by (simp add: same_but_props_def objs_defineOwn_other fresh_defineOwn proto_defineOwn code_defineOwn)

lemma copyProperty_frame:
  assumes "copyProperty h s (Ref t) k deep = (r, h')"
  shows "same_but_props t h h'"
  using copyProperty_cases [OF assms]
  by (auto simp: same_but_props_refl same_but_props_defineOwn)

lemma copy_each_frame:
  "copy_each h s (Ref t) deep ks = (r, h') \<Longrightarrow> same_but_props t h h'"
proof (induction ks arbitrary: h)
  case Nil
  then show ?case by (simp add: same_but_props_refl)
next
  case (Cons k ks)
  show ?case
  proof (cases "deep \<or> hasOwnProperty h s k")
    case False
    then show ?thesis using Cons by simp
  next
    case True
    obtain r1 h1 where c: "copyProperty h s (Ref t) k deep = (r1, h1)"
      by (cases "copyProperty h s (Ref t) k deep") auto
    have f1: "same_but_props t h h1"
      using c by (rule copyProperty_frame)
    show ?thesis
    proof (cases r1)
      case (Inl e)
      then show ?thesis using Cons.prems True c f1 by simp
    next
      case (Inr u)
      then have "copy_each h1 s (Ref t) deep ks = (r, h')"
        using Cons.prems True c by simp
      then have "same_but_props t h1 h'" by (rule Cons.IH)
      with f1 show ?thesis by (rule same_but_props_trans)
    qed
  qed
qed

text \<open>Deep copy from an instance without own properties whose prototype is \<open>mp\<close>.\<close>

lemma copy_each_deep_values:
  assumes "copy_each h s (Ref t) True ks = (Inr u, h')"
      and "props (objs h s) = []" "proto (objs h s) = Ref mp" "mp < s" "mp < t" "s \<noteq> t"
      and "set ks \<subseteq> set (for_in h mp)"
  shows "own_values h' t k = (if k \<in> set ks then enumerable_member h mp k else own_values h t k)"
  using assms
proof (induction ks arbitrary: h)
  case Nil
  then show ?case by simp
next
  case (Cons p ks)
  from Cons.prems(7) have "p \<in> set (for_in h mp)" by simp
  then obtain d where d: "lookup h mp p = Some d" "enumerable d"
    by (auto simp: for_in_iff)
  have gp: "getPropertyDescriptor h s p True = Inr (Some d)"
    using Cons.prems(2,3,4) d
    by (simp add: getPropertyDescriptor_def getOwnPropertyDescriptor_def climb_lookup)
  obtain r1 h1 where c: "copyProperty h s (Ref t) p True = (r1, h1)"
    by (cases "copyProperty h s (Ref t) p True") auto
  from Cons.prems(1) c have r1: "r1 = Inr ()" and rest: "copy_each h1 s (Ref t) True ks = (Inr u, h')"
    by (auto split: sum.splits)
  have h1: "h1 = defineOwnProperty h t p d"
    using copyProperty_cases [OF c] gp r1 by auto
  have same: "\<And>x. x \<noteq> t \<Longrightarrow> objs h1 x = objs h x"
    by (simp add: h1 objs_defineOwn_other)
  have low: "\<And>x. x \<le> mp \<Longrightarrow> objs h1 x = objs h x"
    using same Cons.prems(5) by simp
  have fi: "for_in h1 mp = for_in h mp"
    using low by (rule for_in_cong)
  have lk: "\<And>k. lookup h1 mp k = lookup h mp k"
    using low by (rule lookup_cong)
  have IH: "own_values h' t k = (if k \<in> set ks then enumerable_member h1 mp k else own_values h1 t k)"
    using Cons.IH [OF rest] Cons.prems(2-7) same fi by simp
  have ov: "own_values h1 t k = (if k = p then Some (dvalue d) else own_values h t k)"
    by (simp add: own_values_def h1 getOwn_defineOwn)
  show ?case
    using IH ov d by (auto simp: enumerable_member_def lk)
qed

subsection \<open>The class under construction\<close>

lemma getV_error: "getV h v k = Inl e \<Longrightarrow> e = TypeError"
  by (cases v) (auto split: if_splits)

lemma class_inv_props:
  assumes "class_inv N c pa h" "same_but_props t h h'" "t \<noteq> c"
  shows "class_inv N c pa h'"
  using assms by (simp add: class_inv_def same_but_props_def getOwnPropertyDescriptor_def)

lemma class_inv_get: "class_inv N c pa h \<Longrightarrow> get h c PROTOTYPE = Ref pa"
  by (simp add: class_inv_def get.simps [of h c PROTOTYPE])

lemma fresh_alloc: "fresh (snd (alloc h ob)) = Suc (fresh h)"
  by (simp add: alloc_def)

lemma objs_alloc: "objs (snd (alloc h ob)) a = (if a = fresh h then ob else objs h a)"
  by (simp add: alloc_def)

lemma createAnUnconstructedInstanceOfClass_cases:
  assumes "createAnUnconstructedInstanceOfClass h x = (r, h')"
  obtains (failed) "r = Inl TypeError" "h' = h"
    | (made) m P where "x = Ref m" "get h m PROTOTYPE = P" "P = Null \<or> (\<exists>mp. P = Ref mp)"
        "r = Inr (Ref (fresh h))" "h' = snd (alloc h \<lparr>props = [], proto = P, code = None\<rparr>)"
proof (cases "getV h x PROTOTYPE")
  case (Inl e)
  then have "e = TypeError" by (rule getV_error)
  then have "r = Inl TypeError" "h' = h"
    using assms Inl by (simp_all add: createAnUnconstructedInstanceOfClass_def)
  then show ?thesis by (rule failed)
next
  case (Inr P)
  show ?thesis
  proof (cases x)
    case (Ref m)
    then have P: "get h m PROTOTYPE = P" using Inr by simp
    show ?thesis
    proof (cases "P = Null \<or> (\<exists>mp. P = Ref mp)")
      case True
      then have "r = Inr (Ref (fresh h))" "h' = snd (alloc h \<lparr>props = [], proto = P, code = None\<rparr>)"
        using assms Inr by (auto simp: createAnUnconstructedInstanceOfClass_def alloc_def)
      with Ref P True show ?thesis by (rule made)
    next
      case False
      then have "r = Inl TypeError" "h' = h"
        using assms Inr by (cases P; simp add: createAnUnconstructedInstanceOfClass_def)+
      then show ?thesis by (rule failed)
    qed
  next
    case Undefined
    then show ?thesis using Inr by simp
  next
    case Null
    then show ?thesis using Inr by simp
  next
    case (Bool x3)
    then have "r = Inl TypeError" "h' = h"
      using assms by (simp_all add: createAnUnconstructedInstanceOfClass_def)
    then show ?thesis by (rule failed)
  next
    case (Num x4)
    then have "r = Inl TypeError" "h' = h"
      using assms by (simp_all add: createAnUnconstructedInstanceOfClass_def)
    then show ?thesis by (rule failed)
  next
    case (Str x5)
    then have "r = Inl TypeError" "h' = h"
      using assms by (simp_all add: createAnUnconstructedInstanceOfClass_def key_neq)
    then show ?thesis by (rule failed)
  next
    case (Arr x6)
    then have "r = Inl TypeError" "h' = h"
      using assms by (simp_all add: createAnUnconstructedInstanceOfClass_def key_neq)
    then show ?thesis by (rule failed)
  qed
qed

lemma class_inv_mono:
  assumes "class_inv N c pa h" "fresh h \<le> fresh h'" "objs h' c = objs h c"
  shows "class_inv N c pa h'"
  using assms by (simp add: class_inv_def getOwnPropertyDescriptor_def)

lemma grows_but_refl: "grows_but t h h"
  by (simp add: grows_but_def)

lemma grows_but_trans:
  assumes "grows_but t h h1" "grows_but t h1 h2"
  shows "grows_but t h h2"
proof -
  have a: "fresh h \<le> fresh h1" "fresh h1 \<le> fresh h2"
    using assms by (simp_all add: grows_but_def)
  have "\<And>a. a < fresh h \<Longrightarrow> a \<noteq> t \<Longrightarrow> objs h2 a = objs h a"
  proof -
    fix a assume b: "a < fresh h" "a \<noteq> t"
    then have "a < fresh h1" using a by simp
    then have "objs h2 a = objs h1 a" using assms(2) b by (simp add: grows_but_def)
    moreover have "objs h1 a = objs h a" using assms(1) b by (simp add: grows_but_def)
    ultimately show "objs h2 a = objs h a" by simp
  qed
  moreover have "proto (objs h2 t) = proto (objs h t)" "code (objs h2 t) = code (objs h t)"
    using assms by (simp_all add: grows_but_def)
  ultimately show ?thesis
    using a by (simp add: grows_but_def)
qed

lemma same_but_props_grows: "same_but_props t h h' \<Longrightarrow> grows_but t h h'"
  by (simp add: same_but_props_def grows_but_def)

lemma alloc_grows: "t < fresh h \<Longrightarrow> grows_but t h (snd (alloc h ob))"
  by (simp add: grows_but_def alloc_def)

text \<open>What the mixin loop does, whatever its result.\<close>

lemma mixin_each_frame:
  assumes "mixin_each h c xs = (r, h')" "class_inv N c pa h"
  shows "grows_but pa h h'"
  using assms
proof (induction xs arbitrary: h)
  case Nil
  then show ?case by (simp add: grows_but_refl)
next
  case (Cons x xs)
  obtain r1 h1 where a: "createAnUnconstructedInstanceOfClass h x = (r1, h1)"
    by (cases "createAnUnconstructedInstanceOfClass h x") auto
  from a show ?case
  proof (cases rule: createAnUnconstructedInstanceOfClass_cases)
    case failed
    then show ?thesis using Cons.prems(1) a by (simp add: grows_but_refl)
  next
    case (made m P)
    note r1 = made(4) and h1 = made(5)
    have lt: "c < fresh h" "pa < fresh h" "c \<noteq> pa"
      using Cons.prems(2) by (simp_all add: class_inv_def)
    have g1: "grows_but pa h h1"
      unfolding h1 using lt(2) by (rule alloc_grows)
    have c1: "objs h1 c = objs h c" "fresh h \<le> fresh h1"
      using lt by (simp_all add: h1 objs_alloc fresh_alloc)
    have inv1: "class_inv N c pa h1"
      using Cons.prems(2) c1(2) c1(1) by (rule class_inv_mono)
    have tgt: "get h1 c PROTOTYPE = Ref pa"
      using inv1 by (rule class_inv_get)
    obtain r2 h2 where b: "copy_each h1 (fresh h) (Ref pa) True (for_in h1 (fresh h)) = (r2, h2)"
      by (cases "copy_each h1 (fresh h) (Ref pa) True (for_in h1 (fresh h))") auto
    have s2: "same_but_props pa h1 h2"
      using b by (rule copy_each_frame)
    have inv2: "class_inv N c pa h2"
      using inv1 s2 lt(3) [symmetric] by (rule class_inv_props)
    have g2: "grows_but pa h h2"
      using g1 same_but_props_grows [OF s2] by (rule grows_but_trans)
    have step: "mixin_each h c (x # xs) =
        (case r2 of Inl e \<Rightarrow> (Inl e, h2) | Inr u \<Rightarrow> mixin_each h2 c xs)"
      using a r1 tgt b by (simp add: copyProperties_def split: sum.split)
    show ?thesis
    proof (cases r2)
      case (Inl e)
      then have "h' = h2"
        using Cons.prems(1) step by simp
      then show ?thesis using g2 by simp
    next
      case (Inr u)
      then have rest: "mixin_each h2 c xs = (r, h')"
        using Cons.prems(1) step by simp
      have "grows_but pa h2 h'"
        using rest inv2 by (rule Cons.IH)
      with g2 show ?thesis by (rule grows_but_trans)
    qed
  qed
qed

lemma mixin_each_inv:
  assumes "mixin_each h c xs = (r, h')" "class_inv N c pa h"
  shows "class_inv N c pa h'"
proof -
  have g: "grows_but pa h h'"
    using assms by (rule mixin_each_frame)
  have "c < fresh h" "c \<noteq> pa"
    using assms(2) by (simp_all add: class_inv_def)
  then have "fresh h \<le> fresh h'" "objs h' c = objs h c"
    using g by (simp_all add: grows_but_def)
  with assms(2) show ?thesis
    by (rule class_inv_mono)
qed

subsection \<open>What the mixin step copies\<close>

lemma for_in_no_props:
  assumes "props (objs h a) = []"
  shows "for_in h a = (case proto (objs h a) of Ref p \<Rightarrow> if p < a then for_in h p else [] | _ \<Rightarrow> [])"
  using assms
  by (simp add: for_in.simps [of h a] hasOwnProperty_def getOwnPropertyDescriptor_def)

lemma enumerable_member_cong:
  assumes "\<And>x. x \<le> a \<Longrightarrow> objs h' x = objs h x"
  shows "enumerable_member h' a k = enumerable_member h a k"
  using lookup_cong [of a h' h k, OF assms] by (simp add: enumerable_member_def)

lemma for_in_enumerable_member: "k \<in> set (for_in h a) \<longleftrightarrow> enumerable_member h a k \<noteq> None"
  by (auto simp: for_in_iff enumerable_member_def split: option.splits)

lemma own_values_same_obj: "objs h' a = objs h a \<Longrightarrow> own_values h' a k = own_values h a k"
  by (simp add: own_values_def getOwnPropertyDescriptor_def)

lemma mixin_each_values:
  assumes "mixin_each h c xs = (Inr u, h')" "class_inv N c pa h"
      and "\<And>a. a < N \<Longrightarrow> objs h a = objs h0 a"
      and "\<And>m. Ref m \<in> set xs \<Longrightarrow> m < N"
      and "\<And>m mp. Ref m \<in> set xs \<Longrightarrow> get h0 m PROTOTYPE = Ref mp \<Longrightarrow> mp < N"
  shows "own_values h' pa k =
           (case mixin_members h0 xs k of Some v \<Rightarrow> Some v | None \<Rightarrow> own_values h pa k)"
  using assms
proof (induction xs arbitrary: h)
  case Nil
  then show ?case by simp
next
  case (Cons x xs)
  obtain r1 h1 where a: "createAnUnconstructedInstanceOfClass h x = (r1, h1)"
    by (cases "createAnUnconstructedInstanceOfClass h x") auto
  from a show ?case
  proof (cases rule: createAnUnconstructedInstanceOfClass_cases)
    case failed
    then show ?thesis using Cons.prems(1) a by simp
  next
    case (made m P)
    note r1 = made(4) and h1 = made(5)
    have lt: "c < fresh h" "pa < fresh h" "c \<noteq> pa" "N \<le> pa"
      using Cons.prems(2) by (simp_all add: class_inv_def)
    have mN: "m < N"
      using Cons.prems(4) [of m] made(1) by simp
    have P0: "get h0 m PROTOTYPE = P"
    proof -
      have "\<And>x. x \<le> m \<Longrightarrow> objs h x = objs h0 x"
        using Cons.prems(3) mN by simp
      then have "get h m PROTOTYPE = get h0 m PROTOTYPE" by (rule get_cong)
      then show ?thesis using made(2) by simp
    qed
    have g1: "grows_but pa h h1"
      unfolding h1 using lt(2) by (rule alloc_grows)
    have c1: "objs h1 c = objs h c" "fresh h \<le> fresh h1"
      using lt by (simp_all add: h1 objs_alloc fresh_alloc)
    have old1: "\<And>a. a < fresh h \<Longrightarrow> objs h1 a = objs h a"
      by (simp add: h1 objs_alloc)
    have inst: "props (objs h1 (fresh h)) = []" "proto (objs h1 (fresh h)) = P"
      by (simp_all add: h1 objs_alloc)
    have inv1: "class_inv N c pa h1"
      using Cons.prems(2) c1(2) c1(1) by (rule class_inv_mono)
    have tgt: "get h1 c PROTOTYPE = Ref pa"
      using inv1 by (rule class_inv_get)
    obtain r2 h2 where b: "copy_each h1 (fresh h) (Ref pa) True (for_in h1 (fresh h)) = (r2, h2)"
      by (cases "copy_each h1 (fresh h) (Ref pa) True (for_in h1 (fresh h))") auto
    have step: "mixin_each h c (x # xs) =
        (case r2 of Inl e \<Rightarrow> (Inl e, h2) | Inr u \<Rightarrow> mixin_each h2 c xs)"
      using a r1 tgt b by (simp add: copyProperties_def split: sum.split)
    then obtain u2 where r2: "r2 = Inr u2" and rest: "mixin_each h2 c xs = (Inr u, h')"
      using Cons.prems(1) by (cases r2) auto
    have s2: "same_but_props pa h1 h2"
      using b by (rule copy_each_frame)
    have inv2: "class_inv N c pa h2"
      using inv1 s2 lt(3) [symmetric] by (rule class_inv_props)
    have agree2: "\<And>a. a < N \<Longrightarrow> objs h2 a = objs h0 a"
    proof -
      fix a assume aN: "a < N"
      then have "a \<noteq> pa" "a < fresh h" using lt by simp_all
      then have "objs h2 a = objs h a"
        using s2 old1 by (simp add: same_but_props_def)
      then show "objs h2 a = objs h0 a" using Cons.prems(3) aN by simp
    qed
    have IH: "own_values h' pa k =
           (case mixin_members h0 xs k of Some v \<Rightarrow> Some v | None \<Rightarrow> own_values h2 pa k)"
    proof (rule Cons.IH [OF rest inv2 agree2])
      show "\<And>m. Ref m \<in> set xs \<Longrightarrow> m < N"
        using Cons.prems(4) by simp
      show "\<And>m mp. Ref m \<in> set xs \<Longrightarrow> get h0 m PROTOTYPE = Ref mp \<Longrightarrow> mp < N"
        using Cons.prems(5) by (meson list.set_intros(2))
    qed
    have one: "own_values h2 pa k =
        (case (case P of Ref mp \<Rightarrow> enumerable_member h0 mp k | _ \<Rightarrow> None) of
           Some v \<Rightarrow> Some v | None \<Rightarrow> own_values h pa k)"
    proof (cases "\<exists>mp. P = Ref mp")
      case True
      then obtain mp where P: "P = Ref mp" by blast
      have mpN: "mp < N"
        using Cons.prems(5) [of m mp] made(1) P0 P by simp
      have mplt: "mp < fresh h" "mp < pa"
        using mpN lt by simp_all
      have fi: "for_in h1 (fresh h) = for_in h1 mp"
        using inst P mplt by (simp add: for_in_no_props)
      have cp: "copy_each h1 (fresh h) (Ref pa) True (for_in h1 mp) = (Inr u2, h2)"
        using b fi r2 by simp
      have "own_values h2 pa k =
          (if k \<in> set (for_in h1 mp) then enumerable_member h1 mp k else own_values h1 pa k)"
        using cp inst(1) _ mplt(1) mplt(2) _ subset_refl
      proof (rule copy_each_deep_values)
        show "proto (objs h1 (fresh h)) = Ref mp" using inst P by simp
        show "fresh h \<noteq> pa" using lt by simp
      qed
      moreover have "enumerable_member h1 mp k = enumerable_member h0 mp k"
      proof (rule enumerable_member_cong)
        fix x assume "x \<le> mp"
        then have "x < N" "x < fresh h" using mpN mplt by simp_all
        then show "objs h1 x = objs h0 x" using old1 Cons.prems(3) by simp
      qed
      moreover have "own_values h1 pa k = own_values h pa k"
        using old1 lt(2) by (intro own_values_same_obj) simp
      ultimately show ?thesis
        using P by (auto simp: for_in_enumerable_member split: option.splits)
    next
      case False
      then have "P = Null" using made(3) by blast
      then have "for_in h1 (fresh h) = []"
        using inst by (simp add: for_in_no_props)
      then have "h2 = h1" using b by simp
      then have "own_values h2 pa k = own_values h pa k"
        using old1 lt(2) by (intro own_values_same_obj) simp
      then show ?thesis using \<open>P = Null\<close> by simp
    qed
    show ?thesis
      using IH one made(1) P0 by (simp split: option.splits)
  qed
qed

subsection \<open>Function objects and the steps of create\<close>

lemma fst_new_function: "fst (new_function h f) = fresh h"
  by (simp add: new_function_def Let_def)

lemma fresh_new_function: "fresh (snd (new_function h f)) = Suc (Suc (fresh h))"
  by (simp add: new_function_def Let_def)

lemma objs_new_function_old: "a < fresh h \<Longrightarrow> objs (snd (new_function h f)) a = objs h a"
  by (simp add: new_function_def Let_def)

lemma code_new_function: "code (objs (snd (new_function h f)) (fresh h)) = Some f"
  by (simp add: new_function_def Let_def)

lemma getOwn_new_function:
  "getOwnPropertyDescriptor (snd (new_function h f)) (fresh h) PROTOTYPE =
     Some \<lparr>dvalue = Ref (Suc (fresh h)), enumerable = False, configurable = False\<rparr>"
  by (simp add: new_function_def Let_def getOwnPropertyDescriptor_def)

lemma new_function_prototype:
  "objs (snd (new_function h f)) (Suc (fresh h)) =
     \<lparr>props = [(CONSTRUCTOR, \<lparr>dvalue = Ref (fresh h), enumerable = False, configurable = True\<rparr>)],
      proto = Ref ObjectPrototype, code = None\<rparr>"
  by (simp add: new_function_def Let_def)

lemma class_step_refl: "class_step c pa h h"
  by (simp add: class_step_def)

lemma class_step_trans:
  assumes "class_step c pa h h1" "class_step c pa h1 h2"
  shows "class_step c pa h h2"
proof -
  have a: "fresh h \<le> fresh h1" "fresh h1 \<le> fresh h2"
    using assms by (simp_all add: class_step_def)
  have "\<And>a. a < fresh h \<Longrightarrow> a \<noteq> c \<Longrightarrow> a \<noteq> pa \<Longrightarrow> objs h2 a = objs h a"
  proof -
    fix a assume b: "a < fresh h" "a \<noteq> c" "a \<noteq> pa"
    then have "a < fresh h1" using a by simp
    then have "objs h2 a = objs h1 a" using assms(2) b by (simp add: class_step_def)
    moreover have "objs h1 a = objs h a" using assms(1) b by (simp add: class_step_def)
    ultimately show "objs h2 a = objs h a" by simp
  qed
  moreover have "proto (objs h2 pa) = proto (objs h pa)" "code (objs h2 pa) = code (objs h pa)"
     "proto (objs h2 c) = proto (objs h c)"
    using assms by (simp_all add: class_step_def)
  ultimately show ?thesis
    using a by (simp add: class_step_def)
qed

lemma grows_but_class_step:
  assumes "grows_but pa h h'" "c < fresh h" "c \<noteq> pa"
  shows "class_step c pa h h'"
  using assms by (simp add: grows_but_def class_step_def)

lemma same_but_props_class_step:
  assumes "same_but_props t h h'" "t = c \<or> t = pa"
  shows "class_step c pa h h'"
  using assms by (auto simp: same_but_props_def class_step_def)

lemma new_function_class_step:
  assumes "c < fresh h" "pa < fresh h"
  shows "class_step c pa h (snd (new_function h f))"
  using assms by (simp add: class_step_def fresh_new_function objs_new_function_old)

lemma assign_initialize_objs:
  "objs (assign_initialize h c v) a =
     (if a = c then (objs h c)\<lparr>code := (case code (objs h c) of
                                         Some (Class i incs) \<Rightarrow> Some (Class v incs)
                                       | x \<Rightarrow> x)\<rparr>
      else objs h a)"
  by (simp add: assign_initialize_def split: option.split func.split)

lemma assign_initialize_fresh: "fresh (assign_initialize h c v) = fresh h"
  by (simp add: assign_initialize_def split: option.split func.split)

lemma assign_initialize_class_step:
  assumes "c \<noteq> pa"
  shows "class_step c pa h (assign_initialize h c v)"
  using assms by (simp add: class_step_def assign_initialize_objs assign_initialize_fresh)

lemma assign_initialize_getOwn:
  "getOwnPropertyDescriptor (assign_initialize h c v) a k = getOwnPropertyDescriptor h a k"
  by (simp add: getOwnPropertyDescriptor_def assign_initialize_objs)

lemma put_same_but_props: "same_but_props t h (put h t k x)"
  unfolding put_def by (rule same_but_props_defineOwn)

text \<open>The branches of the loop body of step 4.\<close>

lemma define_member_cases:
  assumes "define_member h c d base k = (r, h')" "class_inv N c pa h"
  obtains (init) "k = INITIALIZE" "r = Inr ()"
      "h' = assign_initialize (snd (new_function h (Wrapped (get h d k) CONSTRUCTOR base))) c (Ref (fresh h))"
    | (skip) "k = EXTEND \<or> k = INCLUDE" "r = Inr ()" "h' = h"
    | (static) "k = STATIC" "copyProperties h (get h d k) (Ref c) False = (r, h')"
    | (reserved) "k = SUPER" "r = Inl ReservedNameError" "h' = h"
    | (wrapped) "\<not> keyword k" "callable h (get h d k)" "r = Inr ()"
      "h' = put (snd (new_function h (Wrapped (get h d k) k base))) pa k (Ref (fresh h))"
    | (data) "\<not> keyword k" "\<not> callable h (get h d k)"
      "copyProperty h d (Ref pa) k False = (r, h')"
proof -
  have lt: "c < fresh h" "pa < fresh h"
    using assms(2) by (simp_all add: class_inv_def)
  have tgt: "get h c PROTOTYPE = Ref pa"
    using assms(2) by (rule class_inv_get)
  have tgt1: "\<And>f. get (snd (new_function h f)) c PROTOTYPE = Ref pa"
  proof -
    fix f
    have "class_inv N c pa (snd (new_function h f))"
    proof (rule class_inv_mono [OF assms(2)])
      show "fresh h \<le> fresh (snd (new_function h f))"
        by (simp add: fresh_new_function)
      show "objs (snd (new_function h f)) c = objs h c"
        using lt by (simp add: objs_new_function_old)
    qed
    then show "get (snd (new_function h f)) c PROTOTYPE = Ref pa"
      by (rule class_inv_get)
  qed
  consider "k = INITIALIZE" | "k = EXTEND \<or> k = INCLUDE" | "k = STATIC" | "k = SUPER" | "\<not> keyword k"
    by (auto simp: keyword_def)
  then show ?thesis
  proof cases
    case 1
    have "r = Inr ()"
      "h' = assign_initialize (snd (new_function h (Wrapped (get h d k) CONSTRUCTOR base))) c (Ref (fresh h))"
      using assms(1) 1
      by (simp_all add: define_member_def wrapMethodToHaveSuper_def split_def Let_def fst_new_function)
    with 1 show ?thesis by (rule init)
  next
    case 2
    have "r = Inr ()" "h' = h"
      using assms(1) 2 by (auto simp: define_member_def key_neq Let_def)
    with 2 show ?thesis by (rule skip)
  next
    case 3
    have "copyProperties h (get h d k) (Ref c) False = (r, h')"
      using assms(1) 3 by (simp add: define_member_def key_neq Let_def)
    with 3 show ?thesis by (rule static)
  next
    case 4
    have "r = Inl ReservedNameError" "h' = h"
      using assms(1) 4 by (simp_all add: define_member_def key_neq Let_def)
    with 4 show ?thesis by (rule reserved)
  next
    case 5
    then have nk: "k \<noteq> INITIALIZE" "k \<noteq> EXTEND" "k \<noteq> INCLUDE" "k \<noteq> STATIC" "k \<noteq> SUPER"
      by (simp_all add: keyword_def)
    show ?thesis
    proof (cases "callable h (get h d k)")
      case True
      have "r = Inr ()"
        "h' = put (snd (new_function h (Wrapped (get h d k) k base))) pa k (Ref (fresh h))"
        using assms(1) nk True tgt1
        by (simp_all add: define_member_def wrapMethodToHaveSuper_def split_def Let_def fst_new_function)
      with 5 True show ?thesis by (rule wrapped)
    next
      case False
      have "copyProperty h d (Ref pa) k False = (r, h')"
        using assms(1) nk False tgt by (simp add: define_member_def Let_def)
      with 5 False show ?thesis by (rule data)
    qed
  qed
qed

lemma lookup_own: "getOwnPropertyDescriptor h a k = Some d \<Longrightarrow> lookup h a k = Some d"
  by (simp add: lookup.simps [of h a k])

lemma get_own: "getOwnPropertyDescriptor h a k = Some d \<Longrightarrow> get h a k = dvalue d"
  by (simp add: get.simps [of h a k])

lemma for_in_own_enumerable:
  assumes "k \<in> set (for_in h a)" "getOwnPropertyDescriptor h a k = Some d"
  shows "enumerable d"
  using assms by (auto simp: for_in_iff lookup_own)

text \<open>
  Copying own properties onto \<open>t\<close> leaves alone a property of \<open>t\<close> that is neither
  configurable nor enumerable, because only enumerable properties are copied.
\<close>

lemma copy_each_keeps:
  assumes "copy_each h s (Ref t) False ks = (r, h')"
      and "getOwnPropertyDescriptor h t K = Some e" "\<not> configurable e" "\<not> enumerable e"
      and "K \<in> set ks \<Longrightarrow> \<forall>d. getOwnPropertyDescriptor h s K = Some d \<longrightarrow> enumerable d"
  shows "getOwnPropertyDescriptor h' t K = Some e"
  using assms
proof (induction ks arbitrary: h)
  case Nil
  then show ?case by simp
next
  case (Cons p ks)
  show ?case
  proof (cases "hasOwnProperty h s p")
    case False
    then have "copy_each h s (Ref t) False ks = (r, h')"
      using Cons.prems(1) by simp
    then show ?thesis
      using Cons.prems(2-5) by (intro Cons.IH [of h]) simp_all
  next
    case True
    then obtain d where d: "getOwnPropertyDescriptor h s p = Some d"
      by (auto simp: hasOwnProperty_def)
    then have gp: "getPropertyDescriptor h s p False = Inr (Some d)"
      by (simp add: getPropertyDescriptor_def)
    obtain r1 h1 where c: "copyProperty h s (Ref t) p False = (r1, h1)"
      by (cases "copyProperty h s (Ref t) p False") auto
    have step: "copy_each h s (Ref t) False (p # ks) =
        (case r1 of Inl e \<Rightarrow> (Inl e, h1) | Inr u \<Rightarrow> copy_each h1 s (Ref t) False ks)"
      using True c by (simp split: sum.split)
    from copyProperty_cases [OF c]
    have h1: "h1 = h \<or> (r1 = Inr () \<and> h1 = defineOwnProperty h t p d \<and>
        (\<forall>e. getOwnPropertyDescriptor h t p = Some e \<and> \<not> configurable e \<longrightarrow>
                   \<not> configurable d \<and> enumerable d = enumerable e))"
      using gp by auto
    have pK: "h1 \<noteq> h \<Longrightarrow> p \<noteq> K"
    proof
      assume a: "h1 \<noteq> h" "p = K"
      then have "enumerable d = enumerable e"
        using h1 Cons.prems(2,3) by auto
      moreover have "enumerable d"
        using Cons.prems(5) a(2) d by simp
      ultimately show False using Cons.prems(4) by simp
    qed
    have keep: "\<And>a k. k = K \<Longrightarrow> getOwnPropertyDescriptor h1 a k = getOwnPropertyDescriptor h a k"
    proof -
      fix a k assume "k = K"
      show "getOwnPropertyDescriptor h1 a k = getOwnPropertyDescriptor h a k"
      proof (cases "h1 = h")
        case True
        then show ?thesis by simp
      next
        case False
        then have "p \<noteq> K" by (rule pK)
        moreover have "h1 = defineOwnProperty h t p d" using h1 False by blast
        ultimately show ?thesis using \<open>k = K\<close> by (simp add: getOwn_defineOwn)
      qed
    qed
    show ?thesis
    proof (cases r1)
      case (Inl x)
      then have "h' = h1" using Cons.prems(1) step by simp
      then show ?thesis using keep [of K t] Cons.prems(2) by simp
    next
      case (Inr u)
      then have rest: "copy_each h1 s (Ref t) False ks = (r, h')"
        using Cons.prems(1) step by simp
      show ?thesis
      proof (rule Cons.IH [OF rest])
        show "getOwnPropertyDescriptor h1 t K = Some e"
          using keep [of K t] Cons.prems(2) by simp
        show "\<not> configurable e" "\<not> enumerable e" by fact+
        show "K \<in> set ks \<Longrightarrow> \<forall>d. getOwnPropertyDescriptor h1 s K = Some d \<longrightarrow> enumerable d"
          using keep [of K s] Cons.prems(5) by simp
      qed
    qed
  qed
qed

lemma copyProperties_error_or_copy:
  assumes "copyProperties h v (Ref t) deep = (r, h')"
  obtains (nothing) "h' = h"
    | (copied) s where "v = Ref s" "copy_each h s (Ref t) deep (for_in h s) = (r, h')"
  using assms by (cases v) (auto simp: copyProperties_def split: list.splits)

lemma copyProperties_frame:
  assumes "copyProperties h v (Ref t) deep = (r, h')"
  shows "same_but_props t h h'"
  using assms
proof (cases rule: copyProperties_error_or_copy)
  case nothing
  then show ?thesis by (simp add: same_but_props_refl)
next
  case (copied s)
  then show ?thesis by (simp add: copy_each_frame)
qed

lemma copyProperties_keeps:
  assumes "copyProperties h v (Ref t) False = (r, h')"
      and "getOwnPropertyDescriptor h t K = Some e" "\<not> configurable e" "\<not> enumerable e"
  shows "getOwnPropertyDescriptor h' t K = Some e"
  using assms(1)
proof (cases rule: copyProperties_error_or_copy)
  case nothing
  then show ?thesis using assms(2) by simp
next
  case (copied s)
  show ?thesis
    using copied(2) assms(2-4)
  proof (rule copy_each_keeps)
    show "K \<in> set (for_in h s) \<Longrightarrow> \<forall>d. getOwnPropertyDescriptor h s K = Some d \<longrightarrow> enumerable d"
      using for_in_own_enumerable by blast
  qed
qed

lemma getOwn_new_function_old:
  "a < fresh h \<Longrightarrow>
   getOwnPropertyDescriptor (snd (new_function h f)) a k = getOwnPropertyDescriptor h a k"
  by (simp add: getOwnPropertyDescriptor_def objs_new_function_old)

lemma class_inv_step:
  assumes "class_inv N c pa h" "fresh h \<le> fresh h'"
      and "getOwnPropertyDescriptor h' c PROTOTYPE = getOwnPropertyDescriptor h c PROTOTYPE"
  shows "class_inv N c pa h'"
  using assms by (simp add: class_inv_def)

lemma copyProperty_error: "copyProperty h s t k deep = (Inl e, h') \<Longrightarrow> e = TypeError"
  by (cases t)
     (auto simp: copyProperty_def split: sum.splits option.splits if_splits
           dest: getPropertyDescriptor_error)

lemma copy_each_error: "copy_each h s t deep ks = (Inl e, h') \<Longrightarrow> e = TypeError"
proof (induction ks arbitrary: h)
  case Nil
  then show ?case by simp
next
  case (Cons p ks)
  show ?case
  proof (cases "deep \<or> hasOwnProperty h s p")
    case False
    then show ?thesis using Cons by simp
  next
    case True
    obtain r1 h1 where c: "copyProperty h s t p deep = (r1, h1)"
      by (cases "copyProperty h s t p deep") auto
    show ?thesis
    proof (cases r1)
      case (Inl x)
      then have "x = e" using Cons.prems True c by simp
      then show ?thesis using c Inl copyProperty_error by blast
    next
      case (Inr u)
      then have "copy_each h1 s t deep ks = (Inl e, h')"
        using Cons.prems True c by simp
      then show ?thesis by (rule Cons.IH)
    qed
  qed
qed

lemma copyProperties_error: "copyProperties h v t deep = (Inl e, h') \<Longrightarrow> e = TypeError"
  by (cases v) (auto simp: copyProperties_def split: list.splits dest: copy_each_error)

text \<open>One round of the loop of step 4, whatever its result.\<close>

lemma define_member_state:
  assumes "define_member h c d base k = (r, h')" "class_inv N c pa h"
  shows "class_step c pa h h' \<and> class_inv N c pa h'"
  using assms
proof (cases rule: define_member_cases)
  case init
  define h1 where "h1 = snd (new_function h (Wrapped (get h d k) CONSTRUCTOR base))"
  have lt: "c < fresh h" "pa < fresh h" "c \<noteq> pa"
    using assms(2) by (simp_all add: class_inv_def)
  have s1: "class_step c pa h h1"
    unfolding h1_def using lt(1,2) by (rule new_function_class_step)
  have s2: "class_step c pa h1 h'"
    unfolding init(3) h1_def [symmetric] using lt(3) by (rule assign_initialize_class_step)
  have "class_inv N c pa h'"
    using assms(2)
  proof (rule class_inv_step)
    show "fresh h \<le> fresh h'"
      by (simp add: init(3) assign_initialize_fresh fresh_new_function)
    show "getOwnPropertyDescriptor h' c PROTOTYPE = getOwnPropertyDescriptor h c PROTOTYPE"
      using lt(1)
      by (simp add: init(3) assign_initialize_getOwn getOwn_new_function_old)
  qed
  then show ?thesis
    using class_step_trans [OF s1 s2] by simp
next
  case skip
  then show ?thesis using assms(2) by (simp add: class_step_refl)
next
  case static
  have e: "getOwnPropertyDescriptor h c PROTOTYPE =
      Some \<lparr>dvalue = Ref pa, enumerable = False, configurable = False\<rparr>"
    using assms(2) by (simp add: class_inv_def)
  have f: "same_but_props c h h'"
    using static(2) by (rule copyProperties_frame)
  have e': "getOwnPropertyDescriptor h' c PROTOTYPE =
      Some \<lparr>dvalue = Ref pa, enumerable = False, configurable = False\<rparr>"
    using static(2) e by (rule copyProperties_keeps) simp_all
  have "class_inv N c pa h'"
    using assms(2)
  proof (rule class_inv_step)
    show "fresh h \<le> fresh h'"
      using f by (simp add: same_but_props_def)
    show "getOwnPropertyDescriptor h' c PROTOTYPE = getOwnPropertyDescriptor h c PROTOTYPE"
      by (simp add: e e')
  qed
  moreover have "class_step c pa h h'"
    using f by (rule same_but_props_class_step) simp
  ultimately show ?thesis by simp
next
  case reserved
  then show ?thesis using assms(2) by (simp add: class_step_refl)
next
  case wrapped
  define h1 where "h1 = snd (new_function h (Wrapped (get h d k) k base))"
  have lt: "c < fresh h" "pa < fresh h" "c \<noteq> pa"
    using assms(2) by (simp_all add: class_inv_def)
  have s1: "class_step c pa h h1"
    unfolding h1_def using lt(1,2) by (rule new_function_class_step)
  have h': "h' = put h1 pa k (Ref (fresh h))"
    by (simp add: wrapped(4) h1_def)
  have s2: "class_step c pa h1 h'"
    unfolding h' using put_same_but_props by (rule same_but_props_class_step) simp
  have "class_inv N c pa h'"
    using assms(2)
  proof (rule class_inv_step)
    show "fresh h \<le> fresh h'"
      by (simp add: h' h1_def fresh_put fresh_new_function)
    show "getOwnPropertyDescriptor h' c PROTOTYPE = getOwnPropertyDescriptor h c PROTOTYPE"
      using lt
      by (simp add: h' h1_def getOwn_put getOwn_new_function_old)
  qed
  then show ?thesis
    using class_step_trans [OF s1 s2] by simp
next
  case data
  have lt: "c \<noteq> pa"
    using assms(2) by (simp add: class_inv_def)
  have f: "same_but_props pa h h'"
    using data(3) by (rule copyProperty_frame)
  have "class_inv N c pa h'"
    using assms(2) f lt [symmetric] by (rule class_inv_props)
  moreover have "class_step c pa h h'"
    using f by (rule same_but_props_class_step) simp
  ultimately show ?thesis by simp
qed

lemma define_member_error:
  assumes "define_member h c d base k = (Inl e, h')" "class_inv N c pa h"
  shows "e = TypeError \<or> (e = ReservedNameError \<and> k = SUPER)"
  using assms
proof (cases rule: define_member_cases)
  case static
  then show ?thesis using copyProperties_error by blast
next
  case data
  then show ?thesis using copyProperty_error by blast
qed simp_all

lemma define_each_state:
  assumes "define_each h c d base ks = (r, h')" "class_inv N c pa h"
  shows "class_step c pa h h' \<and> class_inv N c pa h'"
  using assms
proof (induction ks arbitrary: h)
  case Nil
  then show ?case by (simp add: class_step_refl)
next
  case (Cons k ks)
  show ?case
  proof (cases "hasOwnProperty h d k")
    case False
    then have "define_each h c d base ks = (r, h')"
      using Cons.prems(1) by simp
    then show ?thesis using Cons.prems(2) by (rule Cons.IH)
  next
    case True
    obtain r1 h1 where m: "define_member h c d base k = (r1, h1)"
      by (cases "define_member h c d base k") auto
    have s1: "class_step c pa h h1 \<and> class_inv N c pa h1"
      using m Cons.prems(2) by (rule define_member_state)
    show ?thesis
    proof (cases r1)
      case (Inl e)
      then have "h' = h1" using Cons.prems(1) True m by simp
      then show ?thesis using s1 by simp
    next
      case (Inr u)
      then have "define_each h1 c d base ks = (r, h')"
        using Cons.prems(1) True m by simp
      moreover have "class_inv N c pa h1" using s1 by simp
      ultimately have "class_step c pa h1 h' \<and> class_inv N c pa h'"
        by (rule Cons.IH)
      then show ?thesis
        using s1 class_step_trans by blast
    qed
  qed
qed

lemma assign_includes_objs:
  "objs (assign_includes h c v) a =
     (if a = c then (objs h c)\<lparr>code := (case code (objs h c) of
                                         Some (Class i incs) \<Rightarrow> Some (Class i v)
                                       | x \<Rightarrow> x)\<rparr>
      else objs h a)"
  by (simp add: assign_includes_def split: option.split func.split)

lemma assign_includes_fresh: "fresh (assign_includes h c v) = fresh h"
  by (simp add: assign_includes_def split: option.split func.split)

lemma assign_includes_getOwn:
  "getOwnPropertyDescriptor (assign_includes h c v) a k = getOwnPropertyDescriptor h a k"
  by (simp add: getOwnPropertyDescriptor_def assign_includes_objs)

lemma assign_includes_class_step:
  assumes "c \<noteq> pa"
  shows "class_step c pa h (assign_includes h c v)"
  using assms by (simp add: class_step_def assign_includes_objs assign_includes_fresh)

lemma class_inv_new_function:
  "class_inv (fresh h) (fresh h) (Suc (fresh h)) (snd (new_function h f))"
  by (simp add: class_inv_def fresh_new_function getOwn_new_function)

lemma elements_error: "elements h v = Inl e \<Longrightarrow> e = TypeError"
  by (cases v) (auto simp: elements_def split: if_splits)

lemma mixin_each_error: "mixin_each h c xs = (Inl e, h') \<Longrightarrow> e = TypeError"
proof (induction xs arbitrary: h)
  case Nil
  then show ?case by simp
next
  case (Cons x xs)
  obtain r1 h1 where a: "createAnUnconstructedInstanceOfClass h x = (r1, h1)"
    by (cases "createAnUnconstructedInstanceOfClass h x") auto
  from a show ?case
  proof (cases rule: createAnUnconstructedInstanceOfClass_cases)
    case failed
    then show ?thesis using Cons.prems a by simp
  next
    case (made m P)
    obtain r2 h2 where b: "copyProperties h1 (Ref (fresh h)) (get h1 c PROTOTYPE) True = (r2, h2)"
      by (cases "copyProperties h1 (Ref (fresh h)) (get h1 c PROTOTYPE) True") auto
    show ?thesis
    proof (cases r2)
      case (Inl x)
      then have "x = e" using Cons.prems a made(4) b by simp
      then show ?thesis using b Inl copyProperties_error by blast
    next
      case (Inr u)
      then have "mixin_each h2 c xs = (Inl e, h')"
        using Cons.prems a made(4) b by simp
      then show ?thesis by (rule Cons.IH)
    qed
  qed
qed

text \<open>Step 3, whatever its result.\<close>

lemma mixin_state:
  assumes "mixin h c defn = (r, h')" "class_inv N c pa h"
  shows "class_step c pa h h' \<and> class_inv N c pa h' \<and> (\<forall>e. r = Inl e \<longrightarrow> e = TypeError)"
proof (cases "getV h defn INCLUDE")
  case (Inl e)
  then show ?thesis
    using assms getV_error [OF Inl] by (auto simp: mixin_def class_step_refl)
next
  case (Inr incs)
  define h1 where "h1 = assign_includes h c incs"
  have lt: "c < fresh h" "pa < fresh h" "c \<noteq> pa"
    using assms(2) by (simp_all add: class_inv_def)
  have s1: "class_step c pa h h1"
    unfolding h1_def using lt(3) by (rule assign_includes_class_step)
  have inv1: "class_inv N c pa h1"
    using assms(2)
  proof (rule class_inv_step)
    show "fresh h \<le> fresh h1" by (simp add: h1_def assign_includes_fresh)
    show "getOwnPropertyDescriptor h1 c PROTOTYPE = getOwnPropertyDescriptor h c PROTOTYPE"
      by (simp add: h1_def assign_includes_getOwn)
  qed
  have m: "mixin h c defn =
      (if incs \<noteq> Undefined
       then (case elements h1 incs of Inl e \<Rightarrow> (Inl e, h1) | Inr xs \<Rightarrow> mixin_each h1 c xs)
       else (Inr (), h1))"
    unfolding h1_def using Inr by (simp add: mixin_def Let_def)
  show ?thesis
  proof (cases "incs \<noteq> Undefined")
    case False
    then show ?thesis using assms(1) m s1 inv1 by auto
  next
    case True
    show ?thesis
    proof (cases "elements h1 incs")
      case (Inl e)
      then show ?thesis
        using assms(1) m True s1 inv1 elements_error [OF Inl] by auto
    next
      case (Inr xs)
      then have e: "mixin_each h1 c xs = (r, h')"
        using assms(1) m True by simp
      have g: "grows_but pa h1 h'"
        using e inv1 by (rule mixin_each_frame)
      have "c < fresh h1" using inv1 by (simp add: class_inv_def)
      then have s2: "class_step c pa h1 h'"
        using g lt(3) by (intro grows_but_class_step)
      have "class_inv N c pa h'"
        using e inv1 by (rule mixin_each_inv)
      moreover have "\<forall>e. r = Inl e \<longrightarrow> e = TypeError"
        using e mixin_each_error by blast
      ultimately show ?thesis
        using class_step_trans [OF s1 s2] by simp
    qed
  qed
qed

text \<open>Step 2, whatever its result: only the class and new objects are touched.\<close>

lemma inherit_state:
  assumes "inherit h c defn = (r, h')" "class_inv N c q h"
  shows "class_step c q h h' \<and> (\<exists>pa. class_inv N c pa h') \<and> (\<forall>e. r = Inl e \<longrightarrow> e = TypeError)"
proof (cases "getV h defn EXTEND")
  case (Inl e)
  then show ?thesis
    using assms getV_error [OF Inl] by (auto simp: inherit_def class_step_refl)
next
  case (Inr base)
  show ?thesis
  proof (cases "base = Undefined")
    case True
    then show ?thesis
      using assms Inr by (auto simp: inherit_def class_step_refl)
  next
    case False
    obtain r1 h1 where a: "createAnUnconstructedInstanceOfClass h base = (r1, h1)"
      by (cases "createAnUnconstructedInstanceOfClass h base") auto
    from a show ?thesis
    proof (cases rule: createAnUnconstructedInstanceOfClass_cases)
      case failed
      then show ?thesis
        using assms Inr False a by (auto simp: inherit_def class_step_refl)
    next
      case (made m P)
      define h2 where "h2 = put h1 c PROTOTYPE (Ref (fresh h))"
      have lt: "c < fresh h" "N \<le> c" "q < fresh h" "c \<noteq> q"
        using assms(2) by (simp_all add: class_inv_def)
      have g1: "class_step c q h h1"
        using lt by (simp add: class_step_def made(5) objs_alloc fresh_alloc)
      have g2: "class_step c q h1 h2"
        unfolding h2_def using put_same_but_props by (rule same_but_props_class_step) simp
      have g: "class_step c q h h2"
        using g1 g2 by (rule class_step_trans)
      have own1: "getOwnPropertyDescriptor h1 c PROTOTYPE =
          Some \<lparr>dvalue = Ref q, enumerable = False, configurable = False\<rparr>"
        using assms(2) lt(1) by (simp add: class_inv_def made(5) getOwnPropertyDescriptor_def objs_alloc)
      have inv2: "class_inv N c (fresh h) h2"
        using lt own1 by (simp add: class_inv_def h2_def fresh_put getOwn_put made(5) fresh_alloc)
      have i: "inherit h c defn =
          (case getV h2 base PROTOTYPE of
             Inl e \<Rightarrow> (Inl e, h2)
           | Inr p \<Rightarrow>
               (case getV h2 p CONSTRUCTOR of
                  Inl e \<Rightarrow> (Inl e, h2)
                | Inr ctor \<Rightarrow> (Inr base, assign_initialize h2 c ctor)))"
        unfolding h2_def using Inr False a made(4) by (simp add: inherit_def Let_def)
      show ?thesis
      proof (cases "\<exists>ctor. r = Inr base \<and> h' = assign_initialize h2 c ctor")
        case True
        then obtain ctor where h': "h' = assign_initialize h2 c ctor" and r: "r = Inr base"
          by blast
        have "class_step c q h2 h'"
          unfolding h' using lt(4) by (rule assign_initialize_class_step)
        with g have "class_step c q h h'"
          by (rule class_step_trans)
        moreover have "class_inv N c (fresh h) h'"
          using inv2
        proof (rule class_inv_step)
          show "fresh h2 \<le> fresh h'" by (simp add: h' assign_initialize_fresh)
          show "getOwnPropertyDescriptor h' c PROTOTYPE = getOwnPropertyDescriptor h2 c PROTOTYPE"
            by (simp add: h' assign_initialize_getOwn)
        qed
        ultimately show ?thesis using r by auto
      next
        case False
        have "h' = h2 \<and> r = Inl TypeError"
        proof (cases "getV h2 base PROTOTYPE")
          case (Inl e)
          then show ?thesis
            using assms(1) i getV_error [OF Inl] by simp
        next
          case p: (Inr p)
          show ?thesis
          proof (cases "getV h2 p CONSTRUCTOR")
            case (Inl e)
            then show ?thesis
              using assms(1) i p getV_error [OF Inl] by simp
          next
            case (Inr ctor)
            then have "r = Inr base \<and> h' = assign_initialize h2 c ctor"
              using assms(1) i p by auto
            then show ?thesis
              using False by blast
          qed
        qed
        then show ?thesis using g inv2 by auto
      qed
    qed
  qed
qed

lemma class_step_old:
  assumes "class_step c pa h h'" "N \<le> c" "N \<le> pa" "N \<le> fresh h" "a < N"
  shows "objs h' a = objs h a"
  using assms by (simp add: class_step_def)

subsection \<open>The outcomes of create\<close>

lemma define_all_Ref: "define_all h c (Ref d) base = define_each h c d base (for_in h d)"
  by (simp add: define_all_def)

lemma define_each_error:
  assumes "define_each h c d base ks = (Inl e, h')" "class_inv N c pa h"
  shows "e = TypeError \<or> e = ReservedNameError"
  using assms
proof (induction ks arbitrary: h)
  case Nil
  then show ?case by simp
next
  case (Cons k ks)
  show ?case
  proof (cases "hasOwnProperty h d k")
    case False
    then have "define_each h c d base ks = (Inl e, h')"
      using Cons.prems(1) by simp
    then show ?thesis using Cons.prems(2) by (rule Cons.IH)
  next
    case True
    obtain r1 h1 where m: "define_member h c d base k = (r1, h1)"
      by (cases "define_member h c d base k") auto
    show ?thesis
    proof (cases r1)
      case (Inl x)
      then have "x = e" using Cons.prems(1) True m by simp
      then show ?thesis
        using define_member_error [of h c d base k e h1] m Inl Cons.prems(2) by auto
    next
      case (Inr u)
      then have "define_each h1 c d base ks = (Inl e, h')"
        using Cons.prems(1) True m by simp
      moreover have "class_inv N c pa h1"
        using define_member_state [OF m Cons.prems(2)] by simp
      ultimately show ?thesis by (rule Cons.IH)
    qed
  qed
qed

text \<open>The course of \<^verbatim>\<open>create\<close> on a definition that is an object.\<close>

lemma create_cases:
  assumes "create h (Ref d) = (r, h')"
  obtains (failed) e where "r = Inl e" "e = TypeError \<or> e = ReservedNameError"
      "\<And>a. a < fresh h \<Longrightarrow> objs h' a = objs h a"
    | (created) base pa h2 h3 h4 where
      "inherit (snd (new_function h (Class Undefined Undefined))) (fresh h) (Ref d) = (Inr base, h2)"
      "class_step (fresh h) (Suc (fresh h)) (snd (new_function h (Class Undefined Undefined))) h2"
      "class_inv (fresh h) (fresh h) pa h2"
      "mixin h2 (fresh h) (Ref d) = (Inr (), h3)"
      "class_step (fresh h) pa h2 h3" "class_inv (fresh h) (fresh h) pa h3"
      "define_each h3 (fresh h) d base (for_in h3 d) = (Inr (), h4)"
      "class_step (fresh h) pa h3 h4" "class_inv (fresh h) (fresh h) pa h4"
      "r = Inr (Ref (fresh h))" "h' = put h4 pa CONSTRUCTOR (Ref (fresh h))"
      "\<And>a. a < fresh h \<Longrightarrow> objs h2 a = objs h a"
      "\<And>a. a < fresh h \<Longrightarrow> objs h3 a = objs h a"
      "\<And>a. a < fresh h \<Longrightarrow> objs h4 a = objs h a"
proof -
  define N where "N = fresh h"
  define h1 where "h1 = snd (new_function h (Class Undefined Undefined))"
  have c: "create h (Ref d) =
     (case inherit h1 N (Ref d) of
        (Inl e, h2) \<Rightarrow> (Inl e, h2)
      | (Inr base, h2) \<Rightarrow>
          (case mixin h2 N (Ref d) of
             (Inl e, h3) \<Rightarrow> (Inl e, h3)
           | (Inr u, h3) \<Rightarrow>
               (case define_all h3 N (Ref d) base of
                  (Inl e, h4) \<Rightarrow> (Inl e, h4)
                | (Inr u, h4) \<Rightarrow>
                    (case setV h4 (get h4 N PROTOTYPE) CONSTRUCTOR (Ref N) of
                       Inl e \<Rightarrow> (Inl e, h4)
                     | Inr h5 \<Rightarrow> (Inr (Ref N), h5)))))"
    unfolding h1_def N_def
    by (simp add: create_def split_def Let_def fst_new_function split: sum.split)
  have inv1: "class_inv N N (Suc N) h1"
    unfolding h1_def N_def by (rule class_inv_new_function)
  have old1: "\<And>a. a < N \<Longrightarrow> objs h1 a = objs h a"
    unfolding h1_def N_def by (rule objs_new_function_old)
  have N1: "N \<le> fresh h1"
    by (simp add: h1_def N_def fresh_new_function)
  obtain r2 h2 where i: "inherit h1 N (Ref d) = (r2, h2)"
    by (cases "inherit h1 N (Ref d)") auto
  from inherit_state [OF i inv1] obtain pa where
    s2: "class_step N (Suc N) h1 h2" and inv2: "class_inv N N pa h2"
    and e2: "\<And>e. r2 = Inl e \<Longrightarrow> e = TypeError"
    by blast
  have old2: "\<And>a. a < N \<Longrightarrow> objs h2 a = objs h a"
    using class_step_old [OF s2 _ _ N1] old1 by simp
  have N2: "N \<le> fresh h2" "N \<le> pa"
    using inv2 by (simp_all add: class_inv_def)
  show ?thesis
  proof (cases r2)
    case (Inl e)
    then have "r = Inl e" "h' = h2"
      using assms c i by simp_all
    then show ?thesis
      using e2 [OF Inl] old2 by (intro failed [of e]) (simp_all add: N_def)
  next
    case (Inr base)
    obtain r3 h3 where m: "mixin h2 N (Ref d) = (r3, h3)"
      by (cases "mixin h2 N (Ref d)") auto
    from mixin_state [OF m inv2] have
      s3: "class_step N pa h2 h3" and inv3: "class_inv N N pa h3"
      and e3: "\<And>e. r3 = Inl e \<Longrightarrow> e = TypeError"
      by simp_all
    have old3: "\<And>a. a < N \<Longrightarrow> objs h3 a = objs h a"
      using class_step_old [OF s3 _ N2(2) N2(1)] old2 by simp
    have N3: "N \<le> fresh h3"
      using inv3 by (simp add: class_inv_def)
    show ?thesis
    proof (cases r3)
      case e: (Inl e)
      then have "r = Inl e" "h' = h3"
        using assms c i Inr m by simp_all
      then show ?thesis
        using e3 [OF e] old3 by (intro failed [of e]) (simp_all add: N_def)
    next
      case u: (Inr u)
      obtain r4 h4 where f: "define_each h3 N d base (for_in h3 d) = (r4, h4)"
        by (cases "define_each h3 N d base (for_in h3 d)") auto
      from define_each_state [OF f inv3] have
        s4: "class_step N pa h3 h4" and inv4: "class_inv N N pa h4"
        by simp_all
      have old4: "\<And>a. a < N \<Longrightarrow> objs h4 a = objs h a"
        using class_step_old [OF s4 _ N2(2) N3] old3 by simp
      have tgt: "get h4 N PROTOTYPE = Ref pa"
        using inv4 by (rule class_inv_get)
      show ?thesis
      proof (cases r4)
        case e: (Inl e)
        then have "r = Inl e" "h' = h4"
          using assms c i Inr m u f by (simp_all add: define_all_Ref)
        moreover have "e = TypeError \<or> e = ReservedNameError"
          using f e inv3 define_each_error by blast
        ultimately show ?thesis
          using old4 by (intro failed [of e]) (simp_all add: N_def)
      next
        case v: (Inr v)
        have "r = Inr (Ref N)" "h' = put h4 pa CONSTRUCTOR (Ref N)"
          using assms c i Inr m u f v tgt by (simp_all add: define_all_Ref)
        then show ?thesis
          using i Inr s2 inv2 m u s3 inv3 f v s4 inv4 old2 old3 old4
          by (intro created [of base h2 pa h3 h4]) (simp_all add: h1_def N_def)
      qed
    qed
  qed
qed

lemma hasOwnProperty_same: "objs h' a = objs h a \<Longrightarrow> hasOwnProperty h' a k = hasOwnProperty h a k"
  by (simp add: hasOwnProperty_def getOwnPropertyDescriptor_def)


lemma objs_put: "objs (put h t k x) a = (if a = t then objs (put h t k x) t else objs h a)"
  by (simp add: objs_put_other)

subsection \<open>The own properties of the class\<close>





text \<open>The outcomes of step 2.\<close>

lemma inherit_cases:
  assumes "inherit h c defn = (r, h')"
  obtains (root) "getV h defn EXTEND = Inr Undefined" "r = Inr (Ref Object)" "h' = h"
    | (failed) "r = Inl TypeError" "h' = h"
    | (failed_late) P where "r = Inl TypeError"
        "h' = put (snd (alloc h \<lparr>props = [], proto = P, code = None\<rparr>)) c PROTOTYPE (Ref (fresh h))"
    | (extended) m P p ctor where "getV h defn EXTEND = Inr (Ref m)" "get h m PROTOTYPE = P"
        "P = Null \<or> (\<exists>mp. P = Ref mp)"
        "getV (put (snd (alloc h \<lparr>props = [], proto = P, code = None\<rparr>)) c PROTOTYPE (Ref (fresh h)))
              (Ref m) PROTOTYPE = Inr p"
        "getV (put (snd (alloc h \<lparr>props = [], proto = P, code = None\<rparr>)) c PROTOTYPE (Ref (fresh h)))
              p CONSTRUCTOR = Inr ctor"
        "r = Inr (Ref m)"
        "h' = assign_initialize
                (put (snd (alloc h \<lparr>props = [], proto = P, code = None\<rparr>)) c PROTOTYPE (Ref (fresh h)))
                c ctor"
proof (cases "getV h defn EXTEND")
  case (Inl e)
  then have "r = Inl TypeError" "h' = h"
    using assms getV_error [OF Inl] by (simp_all add: inherit_def)
  then show ?thesis by (rule failed)
next
  case (Inr base)
  show ?thesis
  proof (cases "base = Undefined")
    case True
    then have "r = Inr (Ref Object)" "h' = h"
      using assms Inr by (simp_all add: inherit_def)
    with Inr True show ?thesis by (intro root) simp_all
  next
    case False
    obtain r1 h1 where a: "createAnUnconstructedInstanceOfClass h base = (r1, h1)"
      by (cases "createAnUnconstructedInstanceOfClass h base") auto
    from a show ?thesis
    proof (cases rule: createAnUnconstructedInstanceOfClass_cases)
      case failed
      then have "r = Inl TypeError" "h' = h"
        using assms Inr False a by (simp_all add: inherit_def)
      then show ?thesis by (rule that(2))
    next
      case (made m P)
      define h2 where "h2 = put h1 c PROTOTYPE (Ref (fresh h))"
      have i: "inherit h c defn =
          (case getV h2 base PROTOTYPE of
             Inl e \<Rightarrow> (Inl e, h2)
           | Inr p \<Rightarrow>
               (case getV h2 p CONSTRUCTOR of
                  Inl e \<Rightarrow> (Inl e, h2)
                | Inr ctor \<Rightarrow> (Inr base, assign_initialize h2 c ctor)))"
        unfolding h2_def using Inr False a made(4) by (simp add: inherit_def Let_def)
      show ?thesis
      proof (cases "getV h2 base PROTOTYPE")
        case e: (Inl e)
        then have "r = Inl TypeError" "h' = h2"
          using assms i getV_error [OF e] by simp_all
        then show ?thesis
          unfolding h2_def made(5) by (rule failed_late)
      next
        case p: (Inr p)
        show ?thesis
        proof (cases "getV h2 p CONSTRUCTOR")
          case e: (Inl e)
          then have "r = Inl TypeError" "h' = h2"
            using assms i p getV_error [OF e] by simp_all
          then show ?thesis
            unfolding h2_def made(5) by (rule failed_late)
        next
          case ctor: (Inr ctor)
          then have "r = Inr base" "h' = assign_initialize h2 c ctor"
            using assms i p by simp_all
          then show ?thesis
            using Inr made(1,2,3) p ctor
            unfolding h2_def made(5) by (intro extended [of m P p ctor]) simp_all
        qed
      qed
    qed
  qed
qed

lemma getOwn_alloc_old:
  "a < fresh h \<Longrightarrow> getOwnPropertyDescriptor (snd (alloc h ob)) a k = getOwnPropertyDescriptor h a k"
  by (simp add: getOwnPropertyDescriptor_def objs_alloc)








lemma own_enumerable_iff:
  "own_enumerable h a k \<noteq> None \<longleftrightarrow> k \<in> set (for_in h a) \<and> hasOwnProperty h a k"
proof (cases "getOwnPropertyDescriptor h a k")
  case None
  then show ?thesis by (simp add: own_enumerable_def hasOwnProperty_def)
next
  case (Some d)
  then show ?thesis
    using lookup_own [OF Some] by (simp add: own_enumerable_def hasOwnProperty_def for_in_iff)
qed

lemma own_enumerable_get: "own_enumerable h a k = Some v \<Longrightarrow> get h a k = v"
  by (auto simp: own_enumerable_def get_own split: option.splits if_splits)

subsection \<open>The closure of the class\<close>

text \<open>The closure of the class through the steps of \<^verbatim>\<open>create\<close>.\<close>

lemma code_assign_initialize:
  "code (objs (assign_initialize h c v) a) =
     (if a = c then (case code (objs h c) of
                       Some (Class i incs) \<Rightarrow> Some (Class v incs)
                     | x \<Rightarrow> x)
      else code (objs h a))"
  by (simp add: assign_initialize_objs)

lemma code_assign_includes:
  "code (objs (assign_includes h c v) a) =
     (if a = c then (case code (objs h c) of
                       Some (Class i incs) \<Rightarrow> Some (Class i v)
                     | x \<Rightarrow> x)
      else code (objs h a))"
  by (simp add: assign_includes_objs)

lemma inherit_code:
  assumes "inherit h c defn = (Inr base, h')" "class_inv N c q h"
      and "code (objs h c) = Some (Class i incs)"
  obtains (root) "getV h defn EXTEND = Inr Undefined" "base = Ref Object"
      "code (objs h' c) = Some (Class i incs)"
    | (extended) m where "getV h defn EXTEND = Inr (Ref m)" "base = Ref m"
      "\<exists>ctor. code (objs h' c) = Some (Class ctor incs)"
      "m < N \<Longrightarrow> \<exists>mp. get h m PROTOTYPE = Ref mp \<and>
         (mp < N \<longrightarrow> code (objs h' c) = Some (Class (get h mp CONSTRUCTOR) incs))"
  using assms(1)
proof (cases rule: inherit_cases)
  case root
  then show ?thesis using assms(3) by (intro that(1)) simp_all
next
  case failed
  then show ?thesis by simp
next
  case (failed_late P)
  then show ?thesis by simp
next
  case (extended m P p ctor)
  define h1 where "h1 = put (snd (alloc h \<lparr>props = [], proto = P, code = None\<rparr>)) c PROTOTYPE (Ref (fresh h))"
  have lt: "N \<le> c" "c < fresh h"
    using assms(2) by (simp_all add: class_inv_def)
  have old: "\<And>x. x < N \<Longrightarrow> objs h1 x = objs h x"
    using lt by (simp add: h1_def objs_put_other objs_alloc)
  have code1: "code (objs h1 c) = Some (Class i incs)"
    using lt assms(3) by (simp add: h1_def code_put objs_alloc)
  have code': "code (objs h' c) = Some (Class ctor incs)"
    using code1 by (simp add: extended(7) h1_def [symmetric] code_assign_initialize)
  have sub: "\<exists>mp. get h m PROTOTYPE = Ref mp \<and>
         (mp < N \<longrightarrow> code (objs h' c) = Some (Class (get h mp CONSTRUCTOR) incs))" if m: "m < N"
  proof -
    have "\<And>x. x \<le> m \<Longrightarrow> objs h1 x = objs h x"
      using old m by simp
    then have "get h1 m PROTOTYPE = get h m PROTOTYPE"
      by (rule get_cong)
    then have p: "p = P"
      using extended(4) extended(2) by (simp add: h1_def [symmetric])
    have ct: "getV h1 P CONSTRUCTOR = Inr ctor"
      using extended(5) p by (simp add: h1_def [symmetric])
    then obtain mp where mp: "P = Ref mp"
      using extended(3) by auto
    have "code (objs h' c) = Some (Class (get h mp CONSTRUCTOR) incs)" if "mp < N"
    proof -
      have "\<And>x. x \<le> mp \<Longrightarrow> objs h1 x = objs h x"
        using old that by simp
      then have "get h1 mp CONSTRUCTOR = get h mp CONSTRUCTOR"
        by (rule get_cong)
      then show ?thesis
        using ct mp code' by simp
    qed
    then show ?thesis
      using mp extended(2) by simp
  qed
  show ?thesis
    using extended(1) extended(6) sub code'
    by (intro that(2) [of m]) simp_all
qed

lemma mixin_each_code:
  assumes "mixin_each h c xs = (r, h')" "class_inv N c pa h"
  shows "code (objs h' c) = code (objs h c)"
proof -
  have "grows_but pa h h'"
    using assms by (rule mixin_each_frame)
  moreover have "c < fresh h" "c \<noteq> pa"
    using assms(2) by (simp_all add: class_inv_def)
  ultimately have "objs h' c = objs h c"
    by (simp add: grows_but_def)
  then show ?thesis by simp
qed

lemma mixin_code:
  assumes "mixin h c (Ref d) = (Inr u, h')" "class_inv N c pa h"
      and "code (objs h c) = Some (Class i incs)"
  shows "code (objs h' c) = Some (Class i (get h d INCLUDE))"
proof -
  define h1 where "h1 = assign_includes h c (get h d INCLUDE)"
  have c1: "code (objs h1 c) = Some (Class i (get h d INCLUDE))"
    using assms(3) by (simp add: h1_def code_assign_includes)
  have inv1: "class_inv N c pa h1"
    using assms(2)
  proof (rule class_inv_step)
    show "fresh h \<le> fresh h1" by (simp add: h1_def assign_includes_fresh)
    show "getOwnPropertyDescriptor h1 c PROTOTYPE = getOwnPropertyDescriptor h c PROTOTYPE"
      by (simp add: h1_def assign_includes_getOwn)
  qed
  show ?thesis
  proof (cases "get h d INCLUDE = Undefined")
    case True
    then have "h' = h1"
      using assms(1) by (simp add: mixin_def Let_def h1_def)
    then show ?thesis using c1 by simp
  next
    case False
    then obtain xs where "mixin_each h1 c xs = (Inr u, h')"
      using assms(1) by (auto simp: mixin_def Let_def h1_def [symmetric] split: sum.splits)
    then have "code (objs h' c) = code (objs h1 c)"
      using inv1 by (rule mixin_each_code)
    then show ?thesis using c1 by simp
  qed
qed

lemma define_member_code:
  assumes "define_member h c d base k = (Inr u, h')" "class_inv N c pa h"
      and "code (objs h c) = Some (Class i incs)"
  shows "if k = INITIALIZE
         then code (objs h' c) = Some (Class (Ref (fresh h)) incs) \<and>
              code (objs h' (fresh h)) = Some (Wrapped (get h d INITIALIZE) CONSTRUCTOR base)
         else code (objs h' c) = Some (Class i incs)"
proof -
  have lt: "c < fresh h" "pa < fresh h" "c \<noteq> pa"
    using assms(2) by (simp_all add: class_inv_def)
  from assms(1,2) show ?thesis
  proof (cases rule: define_member_cases)
    case init
    then show ?thesis
      using lt assms(3)
      by (simp add: code_assign_initialize objs_new_function_old code_new_function)
  next
    case skip
    then show ?thesis using assms(3) by (auto simp: key_neq)
  next
    case static
    have "same_but_props c h h'"
      using static(2) by (rule copyProperties_frame)
    then show ?thesis
      using static(1) assms(3) by (simp add: same_but_props_def key_neq)
  next
    case reserved
    then show ?thesis by simp
  next
    case wrapped
    then show ?thesis
      using lt assms(3) by (auto simp: code_put objs_new_function_old keyword_def)
  next
    case data
    have "same_but_props pa h h'"
      using data(3) by (rule copyProperty_frame)
    then have "objs h' c = objs h c"
      using lt(3) by (simp add: same_but_props_def)
    then show ?thesis
      using data(1) assms(3) by (auto simp: keyword_def)
  qed
qed

lemma define_each_code:
  assumes "define_each h c d base ks = (Inr u, h')" "class_inv N c pa h" "d < N"
      and "code (objs h c) = Some (Class i incs)"
  shows "\<exists>i'. code (objs h' c) = Some (Class i' incs) \<and>
           (if INITIALIZE \<in> set ks \<and> hasOwnProperty h d INITIALIZE
            then \<exists>w. i' = Ref w \<and> fresh h \<le> w \<and> w < fresh h' \<and>
                   code (objs h' w) = Some (Wrapped (get h d INITIALIZE) CONSTRUCTOR base)
            else i' = i)"
  using assms
proof (induction ks arbitrary: h i)
  case Nil
  then show ?case by simp
next
  case (Cons k ks)
  have N: "N \<le> c" "N \<le> pa" "c < fresh h" "pa < fresh h"
    using Cons.prems(2) by (simp_all add: class_inv_def)
  show ?case
  proof (cases "hasOwnProperty h d k")
    case False
    then have "define_each h c d base ks = (Inr u, h')"
      using Cons.prems(1) by simp
    then have "\<exists>i'. code (objs h' c) = Some (Class i' incs) \<and>
           (if INITIALIZE \<in> set ks \<and> hasOwnProperty h d INITIALIZE
            then \<exists>w. i' = Ref w \<and> fresh h \<le> w \<and> w < fresh h' \<and>
                   code (objs h' w) = Some (Wrapped (get h d INITIALIZE) CONSTRUCTOR base)
            else i' = i)"
      using Cons.prems(2-4) by (rule Cons.IH)
    then show ?thesis using False by auto
  next
    case True
    obtain r1 h1 where m: "define_member h c d base k = (r1, h1)"
      by (cases "define_member h c d base k") auto
    from Cons.prems(1) True m obtain u1 where r1: "r1 = Inr u1"
      and rest: "define_each h1 c d base ks = (Inr u, h')"
      by (cases r1) auto
    have st: "class_step c pa h h1" "class_inv N c pa h1"
      using define_member_state [OF m Cons.prems(2)] by simp_all
    have st': "class_step c pa h1 h'"
      using define_each_state [OF rest st(2)] by simp
    have old: "\<And>a. a < N \<Longrightarrow> objs h1 a = objs h a"
      using st(1) N(1,2) by (rule class_step_old) (use N in simp_all)
    have fr: "fresh h \<le> fresh h1" "fresh h1 \<le> fresh h'"
      using st(1) st' by (simp_all add: class_step_def)
    have G1: "get h1 d INITIALIZE = get h d INITIALIZE"
    proof -
      have "\<And>x. x \<le> d \<Longrightarrow> objs h1 x = objs h x"
        using old Cons.prems(3) by simp
      then show ?thesis by (rule get_cong)
    qed
    have own1: "hasOwnProperty h1 d INITIALIZE = hasOwnProperty h d INITIALIZE"
      using old [OF Cons.prems(3)] by (rule hasOwnProperty_same)
    define i1 where "i1 = (if k = INITIALIZE then Ref (fresh h) else i)"
    have one: "code (objs h1 c) = Some (Class i1 incs)"
      and w1: "k = INITIALIZE \<Longrightarrow>
               code (objs h1 (fresh h)) = Some (Wrapped (get h d INITIALIZE) CONSTRUCTOR base)"
      using define_member_code [of h c d base k u1 h1 N pa i incs] m r1 Cons.prems(2,4)
      by (simp_all add: i1_def)
    have IH: "\<exists>i'. code (objs h' c) = Some (Class i' incs) \<and>
           (if INITIALIZE \<in> set ks \<and> hasOwnProperty h1 d INITIALIZE
            then \<exists>w. i' = Ref w \<and> fresh h1 \<le> w \<and> w < fresh h' \<and>
                   code (objs h' w) = Some (Wrapped (get h1 d INITIALIZE) CONSTRUCTOR base)
            else i' = i1)"
      using rest st(2) Cons.prems(3) one by (rule Cons.IH)
    then obtain i' where i': "code (objs h' c) = Some (Class i' incs)"
      and alt: "if INITIALIZE \<in> set ks \<and> hasOwnProperty h1 d INITIALIZE
            then \<exists>w. i' = Ref w \<and> fresh h1 \<le> w \<and> w < fresh h' \<and>
                   code (objs h' w) = Some (Wrapped (get h1 d INITIALIZE) CONSTRUCTOR base)
            else i' = i1"
      by blast
    show ?thesis
    proof (cases "INITIALIZE \<in> set ks \<and> hasOwnProperty h d INITIALIZE")
      case later: True
      then obtain w where "i' = Ref w" "fresh h1 \<le> w" "w < fresh h'"
          "code (objs h' w) = Some (Wrapped (get h d INITIALIZE) CONSTRUCTOR base)"
        using alt own1 G1 by auto
      then show ?thesis
        using i' later fr by auto
    next
      case none: False
      then have ii: "i' = i1"
        using alt own1 by auto
      show ?thesis
      proof (cases "k = INITIALIZE")
        case False
        then show ?thesis
          using i' ii none by (auto simp: i1_def)
      next
        case k: True
        have fl: "fresh h < fresh h1"
        proof -
          from m Cons.prems(2) show ?thesis
          proof (cases rule: define_member_cases)
            case init
            then show ?thesis
              by (simp add: assign_initialize_fresh fresh_new_function)
          qed (use k in \<open>auto simp: key_neq keyword_def\<close>)
        qed
        have "objs h' (fresh h) = objs h1 (fresh h)"
          using st' fl N by (simp add: class_step_def)
        then have "code (objs h' (fresh h)) = Some (Wrapped (get h d INITIALIZE) CONSTRUCTOR base)"
          using w1 k by simp
        then show ?thesis
          using i' ii k True fl fr by (auto simp: i1_def)
      qed
    qed
  qed
qed

text \<open>The closure of a class that \<^verbatim>\<open>create\<close> returns.\<close>

lemma create_class_code_from:
  assumes "create h (Ref d) = (Inr C, h')" "d < fresh h"
  obtains base h2 where
      "inherit (snd (new_function h (Class Undefined Undefined))) (fresh h) (Ref d) = (Inr base, h2)"
      "C = Ref (fresh h)"
      "\<And>i. code (objs h2 (fresh h)) = Some (Class i Undefined) \<Longrightarrow>
         \<exists>i'. code (objs h' (fresh h)) = Some (Class i' (get h d INCLUDE)) \<and>
           (if own_enumerable h d INITIALIZE \<noteq> None
            then \<exists>w. i' = Ref w \<and> fresh h \<le> w \<and>
                   code (objs h' w) = Some (Wrapped (get h d INITIALIZE) CONSTRUCTOR base)
            else i' = i)"
  using assms(1)
proof (cases rule: create_cases)
  case (failed e)
  then show ?thesis by simp
next
  case (created base pa h2 h3 h4)
  have g2: "\<And>k. get h2 d k = get h d k"
  proof -
    fix k
    have "\<And>y. y \<le> d \<Longrightarrow> objs h2 y = objs h y"
      using created(12) assms(2) by simp
    then show "get h2 d k = get h d k" by (rule get_cong)
  qed
  have old3: "\<And>x. x \<le> d \<Longrightarrow> objs h3 x = objs h x"
    using created(13) assms(2) by simp
  have g3: "\<And>k. get h3 d k = get h d k"
    using old3 by (rule get_cong)
  have fi: "for_in h3 d = for_in h d"
    using old3 by (rule for_in_cong)
  have own: "hasOwnProperty h3 d INITIALIZE = hasOwnProperty h d INITIALIZE"
    using old3 [of d] by (intro hasOwnProperty_same) simp
  have cond: "INITIALIZE \<in> set (for_in h3 d) \<and> hasOwnProperty h3 d INITIALIZE \<longleftrightarrow>
      own_enumerable h d INITIALIZE \<noteq> None"
    using own_enumerable_iff [of h d INITIALIZE] by (simp only: fi own)
  have fr3: "fresh h \<le> fresh h3"
    using created(6) by (simp add: class_inv_def)
  have final: "\<And>a. code (objs h' a) = code (objs h4 a)"
    by (simp add: created(11) code_put)
  have C: "C = Ref (fresh h)"
    using created(10) by simp
  have step: "\<exists>i'. code (objs h' (fresh h)) = Some (Class i' (get h d INCLUDE)) \<and>
           (if own_enumerable h d INITIALIZE \<noteq> None
            then \<exists>w. i' = Ref w \<and> fresh h \<le> w \<and>
                   code (objs h' w) = Some (Wrapped (get h d INITIALIZE) CONSTRUCTOR base)
            else i' = i)"
    if c2: "code (objs h2 (fresh h)) = Some (Class i Undefined)" for i
  proof -
    have "code (objs h3 (fresh h)) = Some (Class i (get h2 d INCLUDE))"
      using created(4) created(3) c2 by (rule mixin_code)
    then have c3: "code (objs h3 (fresh h)) = Some (Class i (get h d INCLUDE))"
      by (simp add: g2)
    have "\<exists>i'. code (objs h4 (fresh h)) = Some (Class i' (get h d INCLUDE)) \<and>
           (if INITIALIZE \<in> set (for_in h3 d) \<and> hasOwnProperty h3 d INITIALIZE
            then \<exists>w. i' = Ref w \<and> fresh h3 \<le> w \<and> w < fresh h4 \<and>
                   code (objs h4 w) = Some (Wrapped (get h3 d INITIALIZE) CONSTRUCTOR base)
            else i' = i)"
      using created(7) created(6) assms(2) c3 by (rule define_each_code)
    then show ?thesis
      using cond fr3 by (auto simp: final g3)
  qed
  show ?thesis
    using created(1) C step by (rule that)
qed



text \<open>The last assignment of \<^verbatim>\<open>create\<close>.\<close>

lemma create_prototype_constructor:
  assumes "create h (Ref d) = (Inr C, h')"
  shows "\<exists>pa. fresh h \<le> pa \<and> get h' (fresh h) PROTOTYPE = Ref pa \<and>
           get h' pa CONSTRUCTOR = Ref (fresh h)"
  using assms
proof (cases rule: create_cases)
  case (failed e)
  then show ?thesis by simp
next
  case (created base pa h2 h3 h4)
  have "class_inv (fresh h) (fresh h) pa h'"
    using created(9)
  proof (rule class_inv_props)
    show "same_but_props pa h4 h'"
      unfolding created(11) by (rule put_same_but_props)
    show "pa \<noteq> fresh h"
      using created(9) by (auto simp: class_inv_def)
  qed
  then have "get h' (fresh h) PROTOTYPE = Ref pa" "fresh h \<le> pa"
    using class_inv_get [of "fresh h" "fresh h" pa h'] by (simp_all add: class_inv_def)
  moreover have "get h' pa CONSTRUCTOR = Ref (fresh h)"
    by (simp add: created(11) get_put_same)
  ultimately show ?thesis by blast
qed






subsection \<open>The prototype of the class\<close>

text \<open>The own properties of the prototype through step 4.\<close>

lemma own_values_same:
  "getOwnPropertyDescriptor h' a k = getOwnPropertyDescriptor h a k \<Longrightarrow>
   own_values h' a k = own_values h a k"
  by (simp add: own_values_def)

lemma callable_same:
  assumes "\<And>f. v = Ref f \<Longrightarrow> objs h' f = objs h f"
  shows "callable h' v = callable h v"
  using assms by (cases v) (simp_all add: callable_def)

lemma getPropertyDescriptor_shallow:
  "getPropertyDescriptor h s k False = Inr (getOwnPropertyDescriptor h s k)"
  by (simp add: getPropertyDescriptor_def split: option.split)

lemma define_member_values:
  assumes "define_member h c d base k = (Inr u, h')" "class_inv N c pa h"
      and "hasOwnProperty h d k"
  shows "own_values h' pa m =
           (if k = m \<and> \<not> keyword k
            then (if callable h (get h d k) then Some (Ref (fresh h)) else Some (get h d k))
            else own_values h pa m)"
    and "\<not> keyword k \<Longrightarrow> callable h (get h d k) \<Longrightarrow>
         code (objs h' (fresh h)) = Some (Wrapped (get h d k) k base) \<and> fresh h < fresh h'"
proof -
  have lt: "c < fresh h" "pa < fresh h" "c \<noteq> pa"
    using assms(2) by (simp_all add: class_inv_def)
  from assms(1,2) have "own_values h' pa m =
           (if k = m \<and> \<not> keyword k
            then (if callable h (get h d k) then Some (Ref (fresh h)) else Some (get h d k))
            else own_values h pa m) \<and>
         (\<not> keyword k \<longrightarrow> callable h (get h d k) \<longrightarrow>
         code (objs h' (fresh h)) = Some (Wrapped (get h d k) k base) \<and> fresh h < fresh h')"
  proof (cases rule: define_member_cases)
    case init
    have "getOwnPropertyDescriptor h' pa m = getOwnPropertyDescriptor h pa m"
      using lt by (simp add: init(3) assign_initialize_getOwn getOwn_new_function_old)
    then have "own_values h' pa m = own_values h pa m"
      by (rule own_values_same)
    then show ?thesis
      using init(1) by (simp add: keyword_def)
  next
    case skip
    then show ?thesis by (auto simp: keyword_def)
  next
    case static
    have "same_but_props c h h'"
      using static(2) by (rule copyProperties_frame)
    then have "objs h' pa = objs h pa"
      using lt(3) by (simp add: same_but_props_def)
    then have "own_values h' pa m = own_values h pa m"
      by (rule own_values_same_obj)
    then show ?thesis
      using static(1) by (simp add: keyword_def)
  next
    case reserved
    then show ?thesis by simp
  next
    case wrapped
    have "own_values h' pa m = (if k = m then Some (Ref (fresh h)) else own_values h pa m)"
      using lt by (auto simp: wrapped(4) own_values_def getOwn_put getOwn_new_function_old
          split: option.split)
    moreover have "code (objs h' (fresh h)) = Some (Wrapped (get h d k) k base)"
      by (simp add: wrapped(4) code_put code_new_function)
    moreover have "fresh h < fresh h'"
      by (simp add: wrapped(4) fresh_put fresh_new_function)
    ultimately show ?thesis
      using wrapped(1,2) by auto
  next
    case data
    obtain e where e: "getOwnPropertyDescriptor h d k = Some e"
      using assms(3) by (auto simp: hasOwnProperty_def)
    have h': "h' = defineOwnProperty h pa k e"
      using copyProperty_cases [OF data(3)] e by (auto simp: getPropertyDescriptor_shallow)
    have "own_values h' pa m = (if k = m then Some (dvalue e) else own_values h pa m)"
      by (auto simp: h' own_values_def getOwn_defineOwn)
    moreover have "get h d k = dvalue e"
      using e by (rule get_own)
    ultimately show ?thesis
      using data(1,2) by auto
  qed
  then show "own_values h' pa m =
           (if k = m \<and> \<not> keyword k
            then (if callable h (get h d k) then Some (Ref (fresh h)) else Some (get h d k))
            else own_values h pa m)"
    and "\<not> keyword k \<Longrightarrow> callable h (get h d k) \<Longrightarrow>
         code (objs h' (fresh h)) = Some (Wrapped (get h d k) k base) \<and> fresh h < fresh h'"
    by simp_all
qed

lemma define_each_values:
  assumes "define_each h c d base ks = (Inr u, h')" "class_inv N c pa h" "d < N"
      and "\<not> keyword m"
      and "m \<in> set ks \<and> hasOwnProperty h d m \<longrightarrow> (\<forall>f. get h d m = Ref f \<longrightarrow> f < N)"
  shows "if m \<in> set ks \<and> hasOwnProperty h d m
         then (if callable h (get h d m)
               then \<exists>w. own_values h' pa m = Some (Ref w) \<and> fresh h \<le> w \<and> w < fresh h' \<and>
                      code (objs h' w) = Some (Wrapped (get h d m) m base)
               else own_values h' pa m = Some (get h d m))
         else own_values h' pa m = own_values h pa m"
  using assms
proof (induction ks arbitrary: h)
  case Nil
  then show ?case by simp
next
  case (Cons k ks)
  have N: "N \<le> c" "N \<le> pa" "c < fresh h" "pa < fresh h"
    using Cons.prems(2) by (simp_all add: class_inv_def)
  show ?case
  proof (cases "hasOwnProperty h d k")
    case False
    then have "define_each h c d base ks = (Inr u, h')"
      using Cons.prems(1) by simp
    then have "if m \<in> set ks \<and> hasOwnProperty h d m
         then (if callable h (get h d m)
               then \<exists>w. own_values h' pa m = Some (Ref w) \<and> fresh h \<le> w \<and> w < fresh h' \<and>
                      code (objs h' w) = Some (Wrapped (get h d m) m base)
               else own_values h' pa m = Some (get h d m))
         else own_values h' pa m = own_values h pa m"
      using Cons.prems(2-4)
    proof (rule Cons.IH)
      show "m \<in> set ks \<and> hasOwnProperty h d m \<longrightarrow> (\<forall>f. get h d m = Ref f \<longrightarrow> f < N)"
        using Cons.prems(5) by simp
    qed
    then show ?thesis using False by auto
  next
    case True
    obtain r1 h1 where dm: "define_member h c d base k = (r1, h1)"
      by (cases "define_member h c d base k") auto
    from Cons.prems(1) True dm obtain u1 where r1: "r1 = Inr u1"
      and rest: "define_each h1 c d base ks = (Inr u, h')"
      by (cases r1) auto
    note dm' = dm [unfolded r1]
    have st: "class_step c pa h h1" "class_inv N c pa h1"
      using define_member_state [OF dm Cons.prems(2)] by simp_all
    have st': "class_step c pa h1 h'"
      using define_each_state [OF rest st(2)] by simp
    have old: "\<And>a. a < N \<Longrightarrow> objs h1 a = objs h a"
      using st(1) N(1,2) by (rule class_step_old) (use N in simp_all)
    have fr: "fresh h \<le> fresh h1" "fresh h1 \<le> fresh h'"
      using st(1) st' by (simp_all add: class_step_def)
    have G1: "get h1 d m = get h d m"
    proof -
      have "\<And>x. x \<le> d \<Longrightarrow> objs h1 x = objs h x"
        using old Cons.prems(3) by simp
      then show ?thesis by (rule get_cong)
    qed
    have own1: "hasOwnProperty h1 d m = hasOwnProperty h d m"
      using old [OF Cons.prems(3)] by (rule hasOwnProperty_same)
    have call1: "callable h1 (get h d m) = callable h (get h d m)"
      if "m \<in> set ks \<and> hasOwnProperty h d m"
    proof (rule callable_same)
      fix f assume "get h d m = Ref f"
      then have "f < N" using Cons.prems(5) that by simp
      then show "objs h1 f = objs h f" by (rule old)
    qed
    have old1: "m \<in> set ks \<and> hasOwnProperty h1 d m \<longrightarrow> (\<forall>f. get h1 d m = Ref f \<longrightarrow> f < N)"
      using Cons.prems(5) G1 own1 by simp
    have IH: "if m \<in> set ks \<and> hasOwnProperty h1 d m
         then (if callable h1 (get h1 d m)
               then \<exists>w. own_values h' pa m = Some (Ref w) \<and> fresh h1 \<le> w \<and> w < fresh h' \<and>
                      code (objs h' w) = Some (Wrapped (get h1 d m) m base)
               else own_values h' pa m = Some (get h1 d m))
         else own_values h' pa m = own_values h1 pa m"
      using rest st(2) Cons.prems(3,4) old1 by (rule Cons.IH)
    show ?thesis
    proof (cases "m \<in> set ks \<and> hasOwnProperty h d m")
      case later: True
      show ?thesis
      proof (cases "callable h (get h d m)")
        case c: True
        then obtain w where "own_values h' pa m = Some (Ref w)" "fresh h1 \<le> w" "w < fresh h'"
            "code (objs h' w) = Some (Wrapped (get h d m) m base)"
          using IH later own1 G1 call1 by auto
        then show ?thesis
          using later c fr by auto
      next
        case False
        then show ?thesis
          using IH later own1 G1 call1 by auto
      qed
    next
      case none: False
      then have keep: "own_values h' pa m = own_values h1 pa m"
        using IH own1 by auto
      note one = define_member_values(1) [OF dm' Cons.prems(2) True, of m]
      show ?thesis
      proof (cases "k = m")
        case False
        then show ?thesis
          using keep one none by auto
      next
        case k: True
        show ?thesis
        proof (cases "callable h (get h d m)")
          case False
          then show ?thesis
            using keep one k True Cons.prems(4) by auto
        next
          case c: True
          have w: "code (objs h1 (fresh h)) = Some (Wrapped (get h d m) m base)" "fresh h < fresh h1"
            using define_member_values(2) [OF dm' Cons.prems(2) True] k c Cons.prems(4)
            by simp_all
          have "objs h' (fresh h) = objs h1 (fresh h)"
            using st' w(2) N by (simp add: class_step_def)
          then have "code (objs h' (fresh h)) = Some (Wrapped (get h d m) m base)"
            using w(1) by simp
          moreover have "own_values h' pa m = Some (Ref (fresh h))"
            using keep one k c Cons.prems(4) by simp
          ultimately show ?thesis
            using k True c w(2) fr by auto
        qed
      qed
    qed
  qed
qed

text \<open>The prototype of the class after steps 2 and 3.\<close>

lemma class_inv_same:
  assumes "class_inv N c pa h" "class_inv N' c pa' h"
  shows "pa' = pa"
  using assms by (simp add: class_inv_def)

lemma inherit_prototype:
  assumes "inherit (snd (new_function h f)) (fresh h) defn = (Inr base, h2)"
  obtains pa where "class_inv (fresh h) (fresh h) pa h2"
      "\<And>m. m \<noteq> CONSTRUCTOR \<Longrightarrow> own_values h2 pa m = None"
      "getV (snd (new_function h f)) defn EXTEND = Inr Undefined \<and> base = Ref Object \<and>
         proto (objs h2 pa) = Ref ObjectPrototype \<or>
       (\<exists>b. getV (snd (new_function h f)) defn EXTEND = Inr (Ref b) \<and> base = Ref b \<and>
            proto (objs h2 pa) = get (snd (new_function h f)) b PROTOTYPE)"
  using assms
proof (cases rule: inherit_cases)
  case root
  have "class_inv (fresh h) (fresh h) (Suc (fresh h)) h2"
    unfolding root(3) by (rule class_inv_new_function)
  moreover have "\<And>m. m \<noteq> CONSTRUCTOR \<Longrightarrow> own_values h2 (Suc (fresh h)) m = None"
    by (simp add: root(3) own_values_def getOwnPropertyDescriptor_def new_function_prototype)
  moreover have "proto (objs h2 (Suc (fresh h))) = Ref ObjectPrototype"
    by (simp add: root(3) new_function_prototype)
  ultimately show ?thesis
    using root(1,2) by (intro that [of "Suc (fresh h)"]) simp_all
next
  case failed
  then show ?thesis by simp
next
  case (failed_late P)
  then show ?thesis by simp
next
  case (extended b P p ctor)
  define h1 where "h1 = snd (new_function h f)"
  define ob where "ob = \<lparr>props = [], proto = P, code = None\<rparr>"
  define pa where "pa = Suc (Suc (fresh h))"
  have fr1: "fresh h1 = pa"
    by (simp add: h1_def pa_def fresh_new_function)
  have h2: "h2 = assign_initialize (put (snd (alloc h1 ob)) (fresh h) PROTOTYPE (Ref pa)) (fresh h) ctor"
    using extended(7) by (simp add: h1_def ob_def fr1 [unfolded h1_def])
  have g: "getOwnPropertyDescriptor (snd (alloc h1 ob)) (fresh h) PROTOTYPE =
      Some \<lparr>dvalue = Ref (Suc (fresh h)), enumerable = False, configurable = False\<rparr>"
    using getOwn_new_function [of h f] getOwn_alloc_old [of "fresh h" h1 ob PROTOTYPE]
    by (simp add: h1_def fresh_new_function)
  have inv: "class_inv (fresh h) (fresh h) pa h2"
    using g
    by (simp add: class_inv_def h2 assign_initialize_fresh assign_initialize_getOwn fresh_put
        fresh_alloc fr1 getOwn_put) (simp add: pa_def)
  have obj: "objs h2 pa = ob"
    by (simp add: h2 assign_initialize_objs objs_put_other objs_alloc fr1) (simp add: pa_def)
  have "\<And>m. own_values h2 pa m = None"
    by (simp add: own_values_def getOwnPropertyDescriptor_def obj ob_def)
  moreover have "proto (objs h2 pa) = get h1 b PROTOTYPE"
    using extended(2) by (simp add: obj ob_def h1_def)
  ultimately show ?thesis
    using inv extended(1,6) by (intro that [of pa]) (simp_all add: h1_def)
qed

lemma mixin_values:
  assumes "mixin h c (Ref d) = (Inr u, h')" "class_inv N c pa h"
      and "get h d INCLUDE = Arr xs \<or> get h d INCLUDE = Undefined \<and> xs = []"
      and "\<And>a. a < N \<Longrightarrow> objs h a = objs h0 a"
      and "\<And>a. Ref a \<in> set xs \<Longrightarrow> a < N"
      and "\<And>a ap. Ref a \<in> set xs \<Longrightarrow> get h0 a PROTOTYPE = Ref ap \<Longrightarrow> ap < N"
  shows "own_values h' pa k =
           (case mixin_members h0 xs k of Some v \<Rightarrow> Some v | None \<Rightarrow> own_values h pa k)"
proof -
  define h1 where "h1 = assign_includes h c (get h d INCLUDE)"
  have lt: "N \<le> c" "c \<noteq> pa"
    using assms(2) by (simp_all add: class_inv_def)
  have inv1: "class_inv N c pa h1"
    using assms(2)
  proof (rule class_inv_step)
    show "fresh h \<le> fresh h1" by (simp add: h1_def assign_includes_fresh)
    show "getOwnPropertyDescriptor h1 c PROTOTYPE = getOwnPropertyDescriptor h c PROTOTYPE"
      by (simp add: h1_def assign_includes_getOwn)
  qed
  have old1: "\<And>a. a < N \<Longrightarrow> objs h1 a = objs h0 a"
    using assms(4) lt(1) by (simp add: h1_def assign_includes_objs)
  have pa1: "own_values h1 pa k = own_values h pa k"
    using lt(2) by (intro own_values_same_obj) (simp add: h1_def assign_includes_objs)
  show ?thesis
  proof (cases "get h d INCLUDE = Undefined")
    case True
    then have "h' = h1" "xs = []"
      using assms(1,3) by (simp_all add: mixin_def Let_def h1_def)
    then show ?thesis using pa1 by simp
  next
    case False
    then have i: "get h d INCLUDE = Arr xs"
      using assms(3) by simp
    then have "mixin_each h1 c xs = (Inr u, h')"
      using assms(1) by (simp add: mixin_def Let_def h1_def elements_def)
    then have "own_values h' pa k =
        (case mixin_members h0 xs k of Some v \<Rightarrow> Some v | None \<Rightarrow> own_values h1 pa k)"
      using inv1 old1 assms(5,6) by (rule mixin_each_values)
    then show ?thesis using pa1 by (simp split: option.split)
  qed
qed

text \<open>The prototype of a class that \<^verbatim>\<open>create\<close> returns.\<close>

lemma create_prototype_steps:
  assumes "create h (Ref d) = (Inr C, h')" "d < fresh h" "\<not> keyword m"
      and "\<forall>f. own_enumerable h d m = Some (Ref f) \<longrightarrow> f < fresh h"
  obtains pa base h2 h3 where "C = Ref (fresh h)" "fresh h \<le> pa"
      "get h' (fresh h) PROTOTYPE = Ref pa"
      "get h d EXTEND = Undefined \<and> base = Ref Object \<and>
         proto (objs h' pa) = Ref ObjectPrototype \<or>
       (\<exists>b. get h d EXTEND = Ref b \<and> base = Ref b \<and>
            (b < fresh h \<longrightarrow> proto (objs h' pa) = get h b PROTOTYPE))"
      "case own_enumerable h d m of
         Some v \<Rightarrow>
           if callable h v
           then \<exists>w. fresh h \<le> w \<and> code (objs h' w) = Some (Wrapped v m base) \<and>
                  (m \<noteq> CONSTRUCTOR \<longrightarrow> own_values h' pa m = Some (Ref w))
           else m \<noteq> CONSTRUCTOR \<longrightarrow> own_values h' pa m = Some v
       | None \<Rightarrow> m \<noteq> CONSTRUCTOR \<longrightarrow> own_values h' pa m = own_values h3 pa m"
      "mixin h2 (fresh h) (Ref d) = (Inr (), h3)" "class_inv (fresh h) (fresh h) pa h2"
      "m \<noteq> CONSTRUCTOR \<Longrightarrow> own_values h2 pa m = None"
      "\<And>a. a < fresh h \<Longrightarrow> objs h2 a = objs h a"
      "\<And>a. a < fresh h \<Longrightarrow> objs h' a = objs h a"
  using assms(1)
proof (cases rule: create_cases)
  case (failed e)
  then show ?thesis by simp
next
  case (created base pa h2 h3 h4)
  define N where "N = fresh h"
  define h1 where "h1 = snd (new_function h (Class Undefined Undefined))"
  have N: "N \<le> pa" "pa \<noteq> N"
    using created(9) by (auto simp: class_inv_def N_def)
  have old1: "\<And>x. x < N \<Longrightarrow> objs h1 x = objs h x"
    unfolding h1_def N_def by (rule objs_new_function_old)
  have g1: "\<And>x k. x < N \<Longrightarrow> get h1 x k = get h x k"
  proof -
    fix x k assume "x < N"
    then have "\<And>y. y \<le> x \<Longrightarrow> objs h1 y = objs h y"
      using old1 by simp
    then show "get h1 x k = get h x k" by (rule get_cong)
  qed
  have old3: "\<And>x. x \<le> d \<Longrightarrow> objs h3 x = objs h x"
    using created(13) assms(2) by simp
  have g3: "\<And>k. get h3 d k = get h d k"
    using old3 by (rule get_cong)
  have fi: "for_in h3 d = for_in h d"
    using old3 by (rule for_in_cong)
  have own: "hasOwnProperty h3 d m = hasOwnProperty h d m"
    using old3 [of d] by (intro hasOwnProperty_same) simp
  have cond: "m \<in> set (for_in h3 d) \<and> hasOwnProperty h3 d m \<longleftrightarrow> own_enumerable h d m \<noteq> None"
    using own_enumerable_iff [of h d m] by (simp only: fi own)
  have own_get: "\<And>v. own_enumerable h d m = Some v \<Longrightarrow> get h d m = v"
    by (rule own_enumerable_get)
  have call3: "callable h3 (get h d m) = callable h (get h d m)"
    if "own_enumerable h d m \<noteq> None"
  proof (rule callable_same)
    fix f assume "get h d m = Ref f"
    then have "own_enumerable h d m = Some (Ref f)"
      using that own_get by auto
    then have "f < fresh h" using assms(4) by simp
    then show "objs h3 f = objs h f" by (rule created(13))
  qed
  obtain pa' where p2: "class_inv (fresh h) (fresh h) pa' h2"
      "\<And>m. m \<noteq> CONSTRUCTOR \<Longrightarrow> own_values h2 pa' m = None"
      "getV h1 (Ref d) EXTEND = Inr Undefined \<and> base = Ref Object \<and>
         proto (objs h2 pa') = Ref ObjectPrototype \<or>
       (\<exists>b. getV h1 (Ref d) EXTEND = Inr (Ref b) \<and> base = Ref b \<and>
            proto (objs h2 pa') = get h1 b PROTOTYPE)"
    using inherit_prototype [OF created(1)] unfolding h1_def by metis
  have pa': "pa' = pa"
    using created(3) p2(1) by (rule class_inv_same)
  have v2: "m \<noteq> CONSTRUCTOR \<Longrightarrow> own_values h2 pa m = None"
    using p2(2) pa' by simp
  have old3': "m \<in> set (for_in h3 d) \<and> hasOwnProperty h3 d m \<longrightarrow>
      (\<forall>f. get h3 d m = Ref f \<longrightarrow> f < fresh h)"
  proof (intro impI allI)
    fix f assume "m \<in> set (for_in h3 d) \<and> hasOwnProperty h3 d m" "get h3 d m = Ref f"
    then have "own_enumerable h d m = Some (Ref f)"
      using cond own_get g3 by auto
    then show "f < fresh h" using assms(4) by simp
  qed
  have v4: "if m \<in> set (for_in h3 d) \<and> hasOwnProperty h3 d m
         then (if callable h3 (get h3 d m)
               then \<exists>w. own_values h4 pa m = Some (Ref w) \<and> fresh h3 \<le> w \<and> w < fresh h4 \<and>
                      code (objs h4 w) = Some (Wrapped (get h3 d m) m base)
               else own_values h4 pa m = Some (get h3 d m))
         else own_values h4 pa m = own_values h3 pa m"
    using created(7) created(6) assms(2,3) old3' by (rule define_each_values)
  have fr3: "fresh h \<le> fresh h3"
    using created(6) by (simp add: class_inv_def)
  have f1: "\<And>a. code (objs h' a) = code (objs h4 a)"
    by (simp add: created(11) code_put)
  have f2: "m \<noteq> CONSTRUCTOR \<Longrightarrow> own_values h' pa m = own_values h4 pa m"
    by (intro own_values_same) (simp add: created(11) getOwn_put)
  have f3: "proto (objs h' pa) = proto (objs h2 pa)"
    using created(5,8) by (simp add: created(11) proto_put class_step_def)
  have inv': "class_inv (fresh h) (fresh h) pa h'"
    using created(9)
  proof (rule class_inv_props)
    show "same_but_props pa h4 h'"
      unfolding created(11) by (rule put_same_but_props)
    show "pa \<noteq> fresh h"
      using N by (simp add: N_def)
  qed
  have P: "get h' (fresh h) PROTOTYPE = Ref pa"
    using inv' by (rule class_inv_get)
  have old': "\<And>a. a < fresh h \<Longrightarrow> objs h' a = objs h a"
    using N created(14) by (simp add: created(11) objs_put_other N_def)
  have member: "case own_enumerable h d m of
         Some v \<Rightarrow>
           if callable h v
           then \<exists>w. fresh h \<le> w \<and> code (objs h' w) = Some (Wrapped v m base) \<and>
                  (m \<noteq> CONSTRUCTOR \<longrightarrow> own_values h' pa m = Some (Ref w))
           else m \<noteq> CONSTRUCTOR \<longrightarrow> own_values h' pa m = Some v
       | None \<Rightarrow> m \<noteq> CONSTRUCTOR \<longrightarrow> own_values h' pa m = own_values h3 pa m"
  proof (cases "own_enumerable h d m")
    case None
    then show ?thesis
      using v4 cond f2 by simp
  next
    case (Some v)
    then have v: "get h d m = v" by (rule own_enumerable_get)
    show ?thesis
    proof (cases "callable h v")
      case True
      then obtain w where w: "own_values h4 pa m = Some (Ref w)" "fresh h3 \<le> w"
          "code (objs h4 w) = Some (Wrapped v m base)"
        using v4 cond Some v call3 g3 by auto
      have "fresh h \<le> w \<and> code (objs h' w) = Some (Wrapped v m base) \<and>
          (m \<noteq> CONSTRUCTOR \<longrightarrow> own_values h' pa m = Some (Ref w))"
        using w f1 f2 fr3 by simp
      then show ?thesis
        using Some True by auto
    next
      case False
      then have "own_values h4 pa m = Some v"
        using v4 cond Some v call3 g3 by auto
      then show ?thesis
        using Some False f2 by simp
    qed
  qed
  have ext: "get h d EXTEND = Undefined \<and> base = Ref Object \<and>
         proto (objs h' pa) = Ref ObjectPrototype \<or>
       (\<exists>b. get h d EXTEND = Ref b \<and> base = Ref b \<and>
            (b < fresh h \<longrightarrow> proto (objs h' pa) = get h b PROTOTYPE))"
    using p2(3) g1 [OF assms(2) [folded N_def], of EXTEND] g1
    by (auto simp: pa' f3 N_def)
  show ?thesis
    using created(10) N(1) P ext member created(4) created(3) v2 created(12) old'
    by (intro that [of pa base h3 h2]) (simp_all add: N_def)
qed

lemma create_prototype:
  assumes "create h (Ref d) = (Inr C, h')" "d < fresh h" "\<not> keyword m" "m \<noteq> CONSTRUCTOR"
      and "get h d INCLUDE = Arr xs \<or> get h d INCLUDE = Undefined \<and> xs = []"
      and "\<forall>a. Ref a \<in> set xs \<longrightarrow> a < fresh h"
      and "\<forall>a ap. Ref a \<in> set xs \<and> get h a PROTOTYPE = Ref ap \<longrightarrow> ap < fresh h"
      and "\<forall>f. own_enumerable h d m = Some (Ref f) \<longrightarrow> f < fresh h"
  obtains pa base where "C = Ref (fresh h)" "fresh h \<le> pa" "get h' (fresh h) PROTOTYPE = Ref pa"
      "get h d EXTEND = Undefined \<and> base = Ref Object \<and>
         proto (objs h' pa) = Ref ObjectPrototype \<or>
       (\<exists>b. get h d EXTEND = Ref b \<and> base = Ref b \<and>
            (b < fresh h \<longrightarrow> proto (objs h' pa) = get h b PROTOTYPE))"
      "case own_enumerable h d m of
         Some v \<Rightarrow>
           if callable h v
           then \<exists>w. own_values h' pa m = Some (Ref w) \<and> fresh h \<le> w \<and>
                  code (objs h' w) = Some (Wrapped v m base)
           else own_values h' pa m = Some v
       | None \<Rightarrow> own_values h' pa m = mixin_members h xs m"
      "\<And>a. a < fresh h \<Longrightarrow> objs h' a = objs h a"
  using assms(1,2,3,8)
proof (cases rule: create_prototype_steps)
  case (1 pa base h2 h3)
  have g2: "\<And>k. get h2 d k = get h d k"
  proof -
    fix k
    have "\<And>y. y \<le> d \<Longrightarrow> objs h2 y = objs h y"
      using 1(9) assms(2) by simp
    then show "get h2 d k = get h d k" by (rule get_cong)
  qed
  have i2: "get h2 d INCLUDE = Arr xs \<or> get h2 d INCLUDE = Undefined \<and> xs = []"
    using assms(5) by (simp add: g2)
  have "own_values h3 pa m =
      (case mixin_members h xs m of Some v \<Rightarrow> Some v | None \<Rightarrow> own_values h2 pa m)"
    using 1(6) 1(7) i2 1(9)
  proof (rule mixin_values)
    show "\<And>a. Ref a \<in> set xs \<Longrightarrow> a < fresh h"
      using assms(6) by simp
    show "\<And>a ap. Ref a \<in> set xs \<Longrightarrow> get h a PROTOTYPE = Ref ap \<Longrightarrow> ap < fresh h"
      using assms(7) by blast
  qed
  then have v3: "own_values h3 pa m = mixin_members h xs m"
    using 1(8) [OF assms(4)] by (simp split: option.split)
  have member: "case own_enumerable h d m of
         Some v \<Rightarrow>
           if callable h v
           then \<exists>w. own_values h' pa m = Some (Ref w) \<and> fresh h \<le> w \<and>
                  code (objs h' w) = Some (Wrapped v m base)
           else own_values h' pa m = Some v
       | None \<Rightarrow> own_values h' pa m = mixin_members h xs m"
    using 1(5) assms(4) v3 by (auto split: option.splits if_splits)
  show ?thesis
    using 1(1-4) member 1(10) by (rule that)
qed

text \<open>A call of a wrapper on an object.\<close>

lemma Wrapped_call:
  assumes "code (objs h w) = Some (Wrapped method signature base)"
      and "getV h base PROTOTYPE = Inr p" "getV h p signature = Inr g"
  shows "call (Suc n) h (Ref w) (Ref t) args =
           (case call n (put h t SUPER (if truthy g then g else Ref noSuper)) method (Ref t) args of
              None \<Rightarrow> None
            | Some (r, h3) \<Rightarrow> Some (r, put h3 t SUPER (get h t SUPER)))"
  using assms by (simp add: Wrapped_body_def split: option.split prod.split)

lemma own_values_get: "own_values h a k = Some v \<Longrightarrow> get h a k = v"
  by (auto simp: own_values_def get_own)

text \<open>The wrapper that \<^verbatim>\<open>create\<close> makes for a function of the definition.\<close>

lemma create_wrapper:
  assumes "create h (Ref d) = (Inr C, h')" "d < fresh h"
      and "k \<noteq> EXTEND" "k \<noteq> INCLUDE" "k \<noteq> STATIC" "k \<noteq> SUPER"
      and "own_enumerable h d k = Some (Ref f)" "f < fresh h" "callable h (Ref f)"
  obtains w pa base where "fresh h \<le> w"
      "base = (if get h d EXTEND = Undefined then Ref Object else get h d EXTEND)"
      "code (objs h' w) = Some (Wrapped (Ref f) (if k = INITIALIZE then CONSTRUCTOR else k) base)"
      "get h' (fresh h) PROTOTYPE = Ref pa" "get h' pa CONSTRUCTOR = Ref (fresh h)"
      "k = INITIALIZE \<Longrightarrow> code (objs h' (fresh h)) = Some (Class (Ref w) (get h d INCLUDE))"
      "k \<noteq> INITIALIZE \<Longrightarrow> k \<noteq> CONSTRUCTOR \<Longrightarrow> get h' pa k = Ref w"
proof -
  obtain pa where pa: "get h' (fresh h) PROTOTYPE = Ref pa" "get h' pa CONSTRUCTOR = Ref (fresh h)"
    using create_prototype_constructor [OF assms(1)] by blast
  have v: "get h d k = Ref f"
    using assms(7) by (rule own_enumerable_get)
  show ?thesis
  proof (cases "k = INITIALIZE")
    case True
    from assms(1,2) show ?thesis
    proof (cases rule: create_class_code_from)
      case (1 base h2)
      define N where "N = fresh h"
      define h1 where "h1 = snd (new_function h (Class Undefined Undefined))"
      note inh = 1(1) [folded h1_def N_def]
      have inv1: "class_inv N N (Suc N) h1"
        unfolding h1_def N_def by (rule class_inv_new_function)
      have code1: "code (objs h1 N) = Some (Class Undefined Undefined)"
        unfolding h1_def N_def by (rule code_new_function)
      have old1: "\<And>x. x < N \<Longrightarrow> objs h1 x = objs h x"
        unfolding h1_def N_def by (rule objs_new_function_old)
      have "\<And>y. y \<le> d \<Longrightarrow> objs h1 y = objs h y"
        using old1 assms(2) by (simp add: N_def)
      then have g1: "get h1 d EXTEND = get h d EXTEND"
        by (rule get_cong)
      from inh inv1 code1
      have "(\<exists>i. code (objs h2 N) = Some (Class i Undefined)) \<and>
          base = (if get h d EXTEND = Undefined then Ref Object else get h d EXTEND)"
        by (cases rule: inherit_code) (use g1 in auto)
      then obtain i where i: "code (objs h2 (fresh h)) = Some (Class i Undefined)"
          and b: "base = (if get h d EXTEND = Undefined then Ref Object else get h d EXTEND)"
        by (auto simp: N_def)
      from 1(3) [OF i] obtain w where w: "code (objs h' (fresh h)) = Some (Class (Ref w) (get h d INCLUDE))"
          "fresh h \<le> w" "code (objs h' w) = Some (Wrapped (Ref f) CONSTRUCTOR base)"
        using assms(7) v True by auto
      show ?thesis
        using w b pa True by (intro that [of w base pa]) simp_all
    qed
  next
    case False
    then have nk: "\<not> keyword k"
      using assms(3-6) by (simp add: keyword_def)
    have old: "\<forall>f. own_enumerable h d k = Some (Ref f) \<longrightarrow> f < fresh h"
      using assms(7,8) by simp
    from assms(1,2) nk old show ?thesis
    proof (cases rule: create_prototype_steps)
      case (1 pa' base h2 h3)
      have "\<exists>w. fresh h \<le> w \<and> code (objs h' w) = Some (Wrapped (Ref f) k base) \<and>
                  (k \<noteq> CONSTRUCTOR \<longrightarrow> own_values h' pa' k = Some (Ref w))"
        using 1(5) by (simp add: assms(7) assms(9))
      then obtain w where w: "fresh h \<le> w" "code (objs h' w) = Some (Wrapped (Ref f) k base)"
          "k \<noteq> CONSTRUCTOR \<longrightarrow> own_values h' pa' k = Some (Ref w)"
        by (elim exE conjE)
      have b: "base = (if get h d EXTEND = Undefined then Ref Object else get h d EXTEND)"
        using 1(4) by auto
      have same: "pa' = pa"
        using 1(3) pa(1) by simp
      have inst: "get h' pa k = Ref w" if "k \<noteq> CONSTRUCTOR"
        using w(3) that same by (intro own_values_get) simp
      show ?thesis
        using w b pa False inst by (intro that [of w base pa]) simp_all
    qed
  qed
qed

section \<open>The specification\<close>

subsection \<open>Included methods\<close>

lemmas mixin_defs = mixin1_def mixin2_def mixin3_def mixin4_def mixin5_def mixin6_def
  mixin7_def mixin8_def mixin_heap_def

text \<open>
  C1, as amended. Let the definition have no own member \<open>m\<close>, and let the member \<open>m\<close> that
  the included classes hand over be the wrapper \<open>w\<close>, made for the function \<open>f\<close> with the
  base \<open>bM\<close> when the class it comes from was created. Then the prototype of the new class
  gives that same wrapper for \<open>m\<close>, with its closure as it was: a call binds \<^verbatim>\<open>this.super\<close>
  to what the prototype of \<open>bM\<close> has under \<open>m\<close>, or to \<^verbatim>\<open>noSuper\<close>; what the definition
  extends plays no part.
\<close>

theorem create_included_method:
  assumes "create h (Ref d) = (Inr C, h')" "d < fresh h" "\<not> keyword m" "m \<noteq> CONSTRUCTOR"
      and "get h d INCLUDE = Arr xs"
      and "\<forall>a. Ref a \<in> set xs \<longrightarrow> a < fresh h"
      and "\<forall>a ap. Ref a \<in> set xs \<and> get h a PROTOTYPE = Ref ap \<longrightarrow> ap < fresh h"
      and "own_enumerable h d m = None"
      and "mixin_members h xs m = Some (Ref w)" "w < fresh h"
      and "code (objs h w) = Some (Wrapped f m bM)"
  shows "\<exists>pa. get h' (fresh h) PROTOTYPE = Ref pa \<and> get h' pa m = Ref w \<and>
           code (objs h' w) = Some (Wrapped f m bM) \<and>
           (\<forall>h2 p g t args n.
              code (objs h2 w) = code (objs h' w) \<and> getV h2 bM PROTOTYPE = Inr p \<and>
              getV h2 p m = Inr g \<longrightarrow>
              call (Suc n) h2 (Ref w) (Ref t) args =
                (case call n (put h2 t SUPER (if truthy g then g else Ref noSuper)) f (Ref t) args of
                   None \<Rightarrow> None
                 | Some (r, h3) \<Rightarrow> Some (r, put h3 t SUPER (get h2 t SUPER))))"
proof -
  have i: "get h d INCLUDE = Arr xs \<or> get h d INCLUDE = Undefined \<and> xs = []"
    using assms(5) by simp
  have o: "\<forall>f. own_enumerable h d m = Some (Ref f) \<longrightarrow> f < fresh h"
    using assms(8) by simp
  from assms(1-4) i assms(6,7) o show ?thesis
  proof (cases rule: create_prototype)
    case (1 pa base)
    have "own_values h' pa m = Some (Ref w)"
      using 1(5) assms(8,9) by simp
    then have m: "get h' pa m = Ref w"
      by (rule own_values_get)
    have "objs h' w = objs h w"
      using assms(10) by (rule 1(6))
    then have c: "code (objs h' w) = Some (Wrapped f m bM)"
      using assms(11) by simp
    have late: "call (Suc n) h2 (Ref w) (Ref t) args =
                (case call n (put h2 t SUPER (if truthy g then g else Ref noSuper)) f (Ref t) args of
                   None \<Rightarrow> None
                 | Some (r, h3) \<Rightarrow> Some (r, put h3 t SUPER (get h2 t SUPER)))"
      if "code (objs h2 w) = code (objs h' w) \<and> getV h2 bM PROTOTYPE = Inr p \<and>
         getV h2 p m = Inr g" for h2 p g t args n
    proof -
      have c2: "code (objs h2 w) = Some (Wrapped f m bM)"
        using that c by simp
      have p: "getV h2 bM PROTOTYPE = Inr p" and g: "getV h2 p m = Inr g"
        using that by simp_all
      show ?thesis
        by (rule Wrapped_call [OF c2 p g])
    qed
    show ?thesis
    proof (intro exI conjI allI impI)
      show "get h' (fresh h) PROTOTYPE = Ref pa" by (rule 1(3))
      show "get h' pa m = Ref w" by (rule m)
      show "code (objs h' w) = Some (Wrapped f m bM)" by (rule c)
      show "call (Suc n) h2 (Ref w) (Ref t) args =
                (case call n (put h2 t SUPER (if truthy g then g else Ref noSuper)) f (Ref t) args of
                   None \<Rightarrow> None
                 | Some (r, h3) \<Rightarrow> Some (r, put h3 t SUPER (get h2 t SUPER)))"
        if "code (objs h2 w) = code (objs h' w) \<and> getV h2 bM PROTOTYPE = Inr p \<and>
         getV h2 p m = Inr g" for h2 p g t args n
        using that by (rule late)
    qed
  qed
qed

text \<open>
  In the example \<^verbatim>\<open>c.m\<close> is the wrapper that \<^verbatim>\<open>M\<close> has, bound to \<^verbatim>\<open>Object\<close>, the base of
  \<^verbatim>\<open>M\<close>; \<^verbatim>\<open>Object.prototype\<close> has no \<^verbatim>\<open>m\<close>, so a call of \<^verbatim>\<open>c.m\<close> runs the method with
  \<^verbatim>\<open>this.super\<close> bound to \<^verbatim>\<open>noSuper\<close>.
\<close>

theorem create_included_method_witness:
  "create mixin7 (Ref 20) = (Inr (Ref 21), mixin8) \<and> 20 < fresh mixin7 \<and>
   get mixin7 20 INCLUDE = Arr [Ref 16] \<and> get mixin7 20 EXTEND = Ref 9 \<and>
   own_enumerable mixin7 20 ''m'' = None \<and>
   mixin_members mixin7 [Ref 16] ''m'' = Some (Ref 18) \<and>
   code (objs mixin7 18) = Some (Wrapped (Ref 13) ''m'' (Ref Object)) \<and>
   get mixin8 21 PROTOTYPE = Ref 23 \<and> get mixin8 23 ''m'' = Ref 18 \<and>
   code (objs mixin8 18) = Some (Wrapped (Ref 13) ''m'' (Ref Object)) \<and>
   call (Suc 3) mixin_heap (Ref 18) (Ref 25) [] =
     (case call 3 (put mixin_heap 25 SUPER (Ref noSuper)) (Ref 13) (Ref 25) [] of
        None \<Rightarrow> None
      | Some (r, h3) \<Rightarrow> Some (r, put h3 25 SUPER (get mixin_heap 25 SUPER)))"
proof -
  have "fst (create mixin7 (Ref 20)) = Inr (Ref 21)"
    by (simp add: mixin_defs eval)
  then have c: "create mixin7 (Ref 20) = (Inr (Ref 21), mixin8)"
    by (simp add: prod_eq_iff mixin8_def)
  have d: "fresh mixin7 = 21" "get mixin7 20 INCLUDE = Arr [Ref 16]"
      "get mixin7 20 EXTEND = Ref 9" "own_enumerable mixin7 20 ''m'' = None"
      "get mixin7 16 PROTOTYPE = Ref 17"
      "code (objs mixin7 18) = Some (Wrapped (Ref 13) ''m'' (Ref Object))"
    by (simp_all add: own_enumerable_def mixin_defs eval)
  have mm: "mixin_members mixin7 [Ref 16] ''m'' = Some (Ref 18)"
    by (simp add: enumerable_member_def lookup.simps mixin_defs eval)
  have e: "get mixin8 21 PROTOTYPE = Ref 23" "fresh mixin8 = 25"
    by (simp_all add: mixin_defs eval)
  have g: "getV mixin_heap (Ref Object) PROTOTYPE = Inr (Ref ObjectPrototype)"
      "getV mixin_heap (Ref ObjectPrototype) ''m'' = Inr Undefined"
    by (simp_all add: mixin_defs eval)
  have k: "\<not> keyword ''m''" "''m'' \<noteq> CONSTRUCTOR"
    by (simp_all add: keyword_def key_eq)
  have lt: "20 < fresh mixin7" "18 < fresh mixin7"
    using d(1) by simp_all
  have x1: "\<forall>a. Ref a \<in> set [Ref 16] \<longrightarrow> a < fresh mixin7"
    using d(1) by simp
  have x2: "\<forall>a ap. Ref a \<in> set [Ref 16] \<and> get mixin7 a PROTOTYPE = Ref ap \<longrightarrow> ap < fresh mixin7"
    using d(1,5) by auto
  note T = create_included_method [OF c lt(1) k d(2) x1 x2 d(4) mm lt(2) d(6)]
  then obtain pa where t: "get mixin8 (fresh mixin7) PROTOTYPE = Ref pa"
      "get mixin8 pa ''m'' = Ref 18"
      "code (objs mixin8 18) = Some (Wrapped (Ref 13) ''m'' (Ref Object))"
      "\<forall>h2 p g t args n.
              code (objs h2 18) = code (objs mixin8 18) \<and> getV h2 (Ref Object) PROTOTYPE = Inr p \<and>
              getV h2 p ''m'' = Inr g \<longrightarrow>
              call (Suc n) h2 (Ref 18) (Ref t) args =
                (case call n (put h2 t SUPER (if truthy g then g else Ref noSuper)) (Ref 13) (Ref t) args of
                   None \<Rightarrow> None
                 | Some (r, h3) \<Rightarrow> Some (r, put h3 t SUPER (get h2 t SUPER)))"
    by (elim exE conjE)
  have pa: "pa = 23" using t(1) d(1) e(1) by simp
  have m: "get mixin8 23 ''m'' = Ref 18"
    using t(2) pa by simp
  have same: "code (objs mixin_heap 18) = code (objs mixin8 18)"
    using e(2) by (simp add: mixin_heap_def objs_alloc)
  have "call (Suc 3) mixin_heap (Ref 18) (Ref 25) [] =
     (case call 3 (put mixin_heap 25 SUPER (if truthy Undefined then Undefined else Ref noSuper))
             (Ref 13) (Ref 25) [] of
        None \<Rightarrow> None
      | Some (r, h3) \<Rightarrow> Some (r, put h3 25 SUPER (get mixin_heap 25 SUPER)))"
    using t(4) [rule_format, of mixin_heap "Ref ObjectPrototype" Undefined 3 25 "[]"] same g
    by blast
  then have run: "call (Suc 3) mixin_heap (Ref 18) (Ref 25) [] =
     (case call 3 (put mixin_heap 25 SUPER (Ref noSuper)) (Ref 13) (Ref 25) [] of
        None \<Rightarrow> None
      | Some (r, h3) \<Rightarrow> Some (r, put h3 25 SUPER (get mixin_heap 25 SUPER)))"
    by (simp only: truthy_def val.case if_False)
  show ?thesis
    by (intro conjI) (rule c lt(1) d(2) d(3) d(4) mm d(6) e(1) m t(3) run)+
qed

text \<open>
  The class \<^verbatim>\<open>C\<close> of the example extends \<^verbatim>\<open>B\<close>, which has a method \<^verbatim>\<open>m\<close>, and includes
  \<^verbatim>\<open>M\<close>, whose \<^verbatim>\<open>m\<close> calls \<^verbatim>\<open>this.super\<close>. The call \<^verbatim>\<open>c.m()\<close> does not reach the \<^verbatim>\<open>m\<close>
  of \<^verbatim>\<open>B\<close>: it throws the error of \<^verbatim>\<open>noSuper\<close>.
\<close>

theorem create_included_method_counterexample:
  "get mixin7 20 EXTEND = Ref 9 \<and> get mixin7 20 INCLUDE = Arr [Ref 16] \<and>
   get mixin7 9 PROTOTYPE = Ref 10 \<and> get mixin7 10 ''m'' = Ref 11 \<and>
   code (objs mixin7 11) = Some (Wrapped (Ref 6) ''m'' (Ref Object)) \<and>
   code (objs mixin7 6) = Some (returning (Str ''B'')) \<and>
   fst (create mixin7 (Ref 20)) = Inr (Ref 21) \<and>
   get mixin_heap 21 PROTOTYPE = Ref 23 \<and> proto (objs mixin_heap 25) = Ref 23 \<and>
   get mixin_heap 25 ''m'' = Ref 18 \<and>
   (\<exists>h. call 4 mixin_heap (Ref 18) (Ref 25) [] = Some (Inl NoSuperclassMethodError, h))"
  by (simp add: mixin_defs eval)

subsection \<open>Calling \<^verbatim>\<open>super\<close>\<close>

lemmas late_heap_defs = late1_def late2_def late3_def late4_def late5_def late6_def late7_def
  late_heap_def early_heap_def
lemmas root_defs = root1_def root2_def root3_def root_heap_def

text \<open>
  C2, as amended. Let \<open>f\<close> be a function that the definition \<open>d\<close> has under \<open>k\<close>, a member
  name or \<^verbatim>\<open>initialize\<close>. \<^verbatim>\<open>create\<close> makes a wrapper \<open>w\<close> of \<open>f\<close> for the base, which is
  the value of \<^verbatim>\<open>extend\<close> or \<^verbatim>\<open>Object\<close> when the definition has none, and for the name
  \<open>k\<close>, or \<^verbatim>\<open>constructor\<close> when \<open>k\<close> is \<^verbatim>\<open>initialize\<close>; the wrapper is the initializer of
  the class, or its member \<open>k\<close>. In any later heap \<open>h2\<close>, with \<open>g\<close> what the prototype of the
  base has under that name at that moment, a call of the wrapper on \<open>t\<close> runs \<open>f\<close> in a heap
  in which \<^verbatim>\<open>t.super\<close> reads as the handle: \<open>g\<close> itself when \<open>g\<close> is truthy, \<^verbatim>\<open>noSuper\<close>
  otherwise. Invoking the handle is therefore the call of \<open>g\<close>, with whatever outcome
  that call has, when \<open>g\<close> is truthy; when \<open>g\<close> is falsy it is the call of \<^verbatim>\<open>noSuper\<close>,
  which throws its error on every receiver and for all arguments.
\<close>

theorem create_super_handle:
  assumes "create h (Ref d) = (Inr C, h')" "d < fresh h"
      and "k \<noteq> EXTEND" "k \<noteq> INCLUDE" "k \<noteq> STATIC" "k \<noteq> SUPER"
      and "own_enumerable h d k = Some (Ref f)" "f < fresh h" "callable h (Ref f)"
  shows "\<exists>w pa base signature.
           base = (if get h d EXTEND = Undefined then Ref Object else get h d EXTEND) \<and>
           signature = (if k = INITIALIZE then CONSTRUCTOR else k) \<and>
           code (objs h' w) = Some (Wrapped (Ref f) signature base) \<and>
           get h' (fresh h) PROTOTYPE = Ref pa \<and>
           (if k = INITIALIZE
            then code (objs h' (fresh h)) = Some (Class (Ref w) (get h d INCLUDE))
            else k \<noteq> CONSTRUCTOR \<longrightarrow> get h' pa k = Ref w) \<and>
           (\<forall>h2 p g t args n.
              code (objs h2 w) = code (objs h' w) \<and> getV h2 base PROTOTYPE = Inr p \<and>
              getV h2 p signature = Inr g \<longrightarrow>
              (\<exists>handle. handle = (if truthy g then g else Ref noSuper) \<and>
                 get (put h2 t SUPER handle) t SUPER = handle \<and>
                 call (Suc n) h2 (Ref w) (Ref t) args =
                   (case call n (put h2 t SUPER handle) (Ref f) (Ref t) args of
                      None \<Rightarrow> None
                    | Some (r, h3) \<Rightarrow> Some (r, put h3 t SUPER (get h2 t SUPER))) \<and>
                 (\<not> truthy g \<longrightarrow>
                    (\<forall>h3 this args' j. code (objs h3 noSuper) = Some NoSuper \<longrightarrow>
                       call (Suc j) h3 handle this args' =
                         Some (Inl NoSuperclassMethodError, h3)))))"
  using assms
proof (cases rule: create_wrapper)
  case (1 w pa base)
  define signature where "signature = (if k = INITIALIZE then CONSTRUCTOR else k)"
  note w = 1(3) [folded signature_def]
  have run: "\<exists>handle. handle = (if truthy g then g else Ref noSuper) \<and>
                 get (put h2 t SUPER handle) t SUPER = handle \<and>
                 call (Suc n) h2 (Ref w) (Ref t) args =
                   (case call n (put h2 t SUPER handle) (Ref f) (Ref t) args of
                      None \<Rightarrow> None
                    | Some (r, h3) \<Rightarrow> Some (r, put h3 t SUPER (get h2 t SUPER))) \<and>
                 (\<not> truthy g \<longrightarrow>
                    (\<forall>h3 this args' j. code (objs h3 noSuper) = Some NoSuper \<longrightarrow>
                       call (Suc j) h3 handle this args' =
                         Some (Inl NoSuperclassMethodError, h3)))"
    if "code (objs h2 w) = code (objs h' w) \<and> getV h2 base PROTOTYPE = Inr p \<and>
        getV h2 p signature = Inr g" for h2 p g t args n
  proof -
    have c2: "code (objs h2 w) = Some (Wrapped (Ref f) signature base)"
      using that w by simp
    have p: "getV h2 base PROTOTYPE = Inr p" and g: "getV h2 p signature = Inr g"
      using that by simp_all
    define handle where "handle = (if truthy g then g else Ref noSuper)"
    have a: "get (put h2 t SUPER handle) t SUPER = handle"
      by (rule get_put_same)
    have b: "call (Suc n) h2 (Ref w) (Ref t) args =
                   (case call n (put h2 t SUPER handle) (Ref f) (Ref t) args of
                      None \<Rightarrow> None
                    | Some (r, h3) \<Rightarrow> Some (r, put h3 t SUPER (get h2 t SUPER)))"
      unfolding handle_def by (rule Wrapped_call [OF c2 p g])
    have c: "call (Suc j) h3 handle this args' = Some (Inl NoSuperclassMethodError, h3)"
      if "\<not> truthy g" "code (objs h3 noSuper) = Some NoSuper" for h3 this args' j
      using that by (simp add: handle_def)
    show ?thesis
      using a b c by (intro exI [of _ handle] conjI allI impI) (simp_all add: handle_def)
  qed
  have inst: "if k = INITIALIZE
            then code (objs h' (fresh h)) = Some (Class (Ref w) (get h d INCLUDE))
            else k \<noteq> CONSTRUCTOR \<longrightarrow> get h' pa k = Ref w"
    using 1(6,7) by simp
  have late: "\<forall>h2 p g t args n.
              code (objs h2 w) = code (objs h' w) \<and> getV h2 base PROTOTYPE = Inr p \<and>
              getV h2 p signature = Inr g \<longrightarrow>
              (\<exists>handle. handle = (if truthy g then g else Ref noSuper) \<and>
                 get (put h2 t SUPER handle) t SUPER = handle \<and>
                 call (Suc n) h2 (Ref w) (Ref t) args =
                   (case call n (put h2 t SUPER handle) (Ref f) (Ref t) args of
                      None \<Rightarrow> None
                    | Some (r, h3) \<Rightarrow> Some (r, put h3 t SUPER (get h2 t SUPER))) \<and>
                 (\<not> truthy g \<longrightarrow>
                    (\<forall>h3 this args' j. code (objs h3 noSuper) = Some NoSuper \<longrightarrow>
                       call (Suc j) h3 handle this args' =
                         Some (Inl NoSuperclassMethodError, h3))))"
    by (intro allI impI) (rule run)
  show ?thesis
    by (intro exI [of _ w] exI [of _ pa] exI [of _ base] exI [of _ signature] conjI)
      (rule 1(2) signature_def w 1(4) inst late)+
qed

text \<open>
  In the example \<^verbatim>\<open>Base\<close> has no \<^verbatim>\<open>m\<close> at first: in \<^verbatim>\<open>early.m()\<close> the handle is
  \<^verbatim>\<open>noSuper\<close> and the call throws its error. Once \<^verbatim>\<open>Base.prototype.m\<close> is assigned, the
  handle in \<^verbatim>\<open>sub.m()\<close> is that function, and the call returns what it returns.
\<close>

theorem create_super_handle_witness:
  "create late4 (Ref 11) = (Inr (Ref 12), late5) \<and> 11 < fresh late4 \<and>
   own_enumerable late4 11 ''m'' = Some (Ref 9) \<and> 9 < fresh late4 \<and> callable late4 (Ref 9) \<and>
   get late4 11 EXTEND = Ref 7 \<and>
   code (objs late5 15) = Some (Wrapped (Ref 9) ''m'' (Ref 7)) \<and>
   get late5 12 PROTOTYPE = Ref 14 \<and> get late5 14 ''m'' = Ref 15 \<and>
   getV early_heap (Ref 7) PROTOTYPE = Inr (Ref 8) \<and> getV early_heap (Ref 8) ''m'' = Inr Undefined \<and>
   call (Suc 3) early_heap (Ref 15) (Ref 17) [] =
     (case call 3 (put early_heap 17 SUPER (Ref noSuper)) (Ref 9) (Ref 17) [] of
        None \<Rightarrow> None
      | Some (r, h3) \<Rightarrow> Some (r, put h3 17 SUPER (get early_heap 17 SUPER))) \<and>
   call (Suc 0) early_heap (Ref noSuper) (Ref 17) [] = Some (Inl NoSuperclassMethodError, early_heap) \<and>
   (\<exists>h3. call (Suc 3) early_heap (Ref 15) (Ref 17) [] = Some (Inl NoSuperclassMethodError, h3)) \<and>
   getV late_heap (Ref 7) PROTOTYPE = Inr (Ref 8) \<and> getV late_heap (Ref 8) ''m'' = Inr (Ref 17) \<and>
   call (Suc 3) late_heap (Ref 15) (Ref 19) [] =
     (case call 3 (put late_heap 19 SUPER (Ref 17)) (Ref 9) (Ref 19) [] of
        None \<Rightarrow> None
      | Some (r, h3) \<Rightarrow> Some (r, put h3 19 SUPER (get late_heap 19 SUPER))) \<and>
   (\<exists>h3. call (Suc 3) late_heap (Ref 15) (Ref 19) [] = Some (Inr (Str ''late''), h3))"
proof -
  have "fst (create late4 (Ref 11)) = Inr (Ref 12)"
    by (simp add: late_heap_defs eval)
  then have c: "create late4 (Ref 11) = (Inr (Ref 12), late5)"
    by (simp add: prod_eq_iff late5_def)
  have d: "fresh late4 = 12" "own_enumerable late4 11 ''m'' = Some (Ref 9)"
      "callable late4 (Ref 9)" "get late4 11 EXTEND = Ref 7"
    by (simp_all add: own_enumerable_def late_heap_defs eval)
  have e: "get late5 12 PROTOTYPE = Ref 14" "get late5 14 ''m'' = Ref 15" "fresh late5 = 17"
    by (simp_all add: late_heap_defs eval)
  have k: "''m'' \<noteq> EXTEND" "''m'' \<noteq> INCLUDE" "''m'' \<noteq> STATIC" "''m'' \<noteq> SUPER"
      "''m'' \<noteq> INITIALIZE" "''m'' \<noteq> CONSTRUCTOR"
    by (simp_all add: key_eq)
  have lt: "11 < fresh late4" "9 < fresh late4"
    using d(1) by simp_all
  have g1: "getV early_heap (Ref 7) PROTOTYPE = Inr (Ref 8)"
      "getV early_heap (Ref 8) ''m'' = Inr Undefined"
    by (simp_all add: late_heap_defs eval)
  have g2: "getV late_heap (Ref 7) PROTOTYPE = Inr (Ref 8)"
      "getV late_heap (Ref 8) ''m'' = Inr (Ref 17)"
    by (simp_all add: late_heap_defs eval)
  have n: "code (objs early_heap noSuper) = Some NoSuper"
    by (simp add: late_heap_defs eval)
  have "\<exists>h3. call 4 early_heap (Ref 15) (Ref 17) [] = Some (Inl NoSuperclassMethodError, h3)"
    by (simp add: late_heap_defs eval)
  moreover have "\<exists>h3. call 4 late_heap (Ref 15) (Ref 19) [] = Some (Inr (Str ''late''), h3)"
    by (simp add: late_heap_defs eval)
  moreover have "(4 :: nat) = Suc 3" by simp
  ultimately have r: "\<exists>h3. call (Suc 3) early_heap (Ref 15) (Ref 17) [] = Some (Inl NoSuperclassMethodError, h3)"
      "\<exists>h3. call (Suc 3) late_heap (Ref 15) (Ref 19) [] = Some (Inr (Str ''late''), h3)"
    by metis+
  note T = create_super_handle [OF c lt(1) k(1-4) d(2) lt(2) d(3)]
  then obtain w pa base signature where t:
      "base = (if get late4 11 EXTEND = Undefined then Ref Object else get late4 11 EXTEND)"
      "signature = (if ''m'' = INITIALIZE then CONSTRUCTOR else ''m'')"
      "code (objs late5 w) = Some (Wrapped (Ref 9) signature base)"
      "get late5 (fresh late4) PROTOTYPE = Ref pa"
      "if ''m'' = INITIALIZE
       then code (objs late5 (fresh late4)) = Some (Class (Ref w) (get late4 11 INCLUDE))
       else ''m'' \<noteq> CONSTRUCTOR \<longrightarrow> get late5 pa ''m'' = Ref w"
      "\<forall>h2 p g t args n.
              code (objs h2 w) = code (objs late5 w) \<and> getV h2 base PROTOTYPE = Inr p \<and>
              getV h2 p signature = Inr g \<longrightarrow>
              (\<exists>handle. handle = (if truthy g then g else Ref noSuper) \<and>
                 get (put h2 t SUPER handle) t SUPER = handle \<and>
                 call (Suc n) h2 (Ref w) (Ref t) args =
                   (case call n (put h2 t SUPER handle) (Ref 9) (Ref t) args of
                      None \<Rightarrow> None
                    | Some (r, h3) \<Rightarrow> Some (r, put h3 t SUPER (get h2 t SUPER))) \<and>
                 (\<not> truthy g \<longrightarrow>
                    (\<forall>h3 this args' j. code (objs h3 noSuper) = Some NoSuper \<longrightarrow>
                       call (Suc j) h3 handle this args' =
                         Some (Inl NoSuperclassMethodError, h3))))"
    by (elim exE conjE)
  have pa: "pa = 14" using t(4) d(1) e(1) by simp
  have w: "w = 15" using t(5) k(5,6) pa e(2) by simp
  have base: "base = Ref 7" using t(1) d(4) by simp
  have sig: "signature = ''m''" using t(2) k(5) by simp
  have code: "code (objs late5 15) = Some (Wrapped (Ref 9) ''m'' (Ref 7))"
    using t(3) w base sig by simp
  have same1: "code (objs early_heap 15) = code (objs late5 15)"
    using e(3) by (simp add: early_heap_def objs_alloc)
  have same2: "code (objs late_heap 15) = code (objs late5 15)"
    using e(3)
    by (simp add: late_heap_def late7_def late6_def objs_alloc fresh_put fresh_new_function
        code_put objs_new_function_old)
  have f: "\<not> truthy Undefined" and tr: "truthy (Ref 17)"
    by (simp_all add: truthy_def)
  note L = t(6) [unfolded w base sig, rule_format]
  from L [where ?h2.0 = early_heap and p = "Ref 8" and g = Undefined and t = 17 and args = "[]" and n = 3] same1 g1
  obtain handle where h1: "handle = (if truthy Undefined then Undefined else Ref noSuper)"
      "call (Suc 3) early_heap (Ref 15) (Ref 17) [] =
         (case call 3 (put early_heap 17 SUPER handle) (Ref 9) (Ref 17) [] of
            None \<Rightarrow> None
          | Some (r, h3) \<Rightarrow> Some (r, put h3 17 SUPER (get early_heap 17 SUPER)))"
      "\<not> truthy Undefined \<longrightarrow>
         (\<forall>h3 this args' j. code (objs h3 noSuper) = Some NoSuper \<longrightarrow>
            call (Suc j) h3 handle this args' = Some (Inl NoSuperclassMethodError, h3))"
    by blast
  have hd1: "handle = Ref noSuper"
    using h1(1) f by simp
  have run1: "call (Suc 3) early_heap (Ref 15) (Ref 17) [] =
     (case call 3 (put early_heap 17 SUPER (Ref noSuper)) (Ref 9) (Ref 17) [] of
        None \<Rightarrow> None
      | Some (r, h3) \<Rightarrow> Some (r, put h3 17 SUPER (get early_heap 17 SUPER)))"
    using h1(2) unfolding hd1 .
  have no1: "call (Suc 0) early_heap (Ref noSuper) (Ref 17) [] =
      Some (Inl NoSuperclassMethodError, early_heap)"
    using h1(3) [unfolded hd1, rule_format, OF f n] .
  from L [where ?h2.0 = late_heap and p = "Ref 8" and g = "Ref 17" and t = 19 and args = "[]" and n = 3] same2 g2
  obtain handle2 where h2: "handle2 = (if truthy (Ref 17) then Ref 17 else Ref noSuper)"
      "call (Suc 3) late_heap (Ref 15) (Ref 19) [] =
         (case call 3 (put late_heap 19 SUPER handle2) (Ref 9) (Ref 19) [] of
            None \<Rightarrow> None
          | Some (r, h3) \<Rightarrow> Some (r, put h3 19 SUPER (get late_heap 19 SUPER)))"
    by blast
  have hd2: "handle2 = Ref 17"
    using h2(1) tr by simp
  have run2: "call (Suc 3) late_heap (Ref 15) (Ref 19) [] =
     (case call 3 (put late_heap 19 SUPER (Ref 17)) (Ref 9) (Ref 19) [] of
        None \<Rightarrow> None
      | Some (r, h3) \<Rightarrow> Some (r, put h3 19 SUPER (get late_heap 19 SUPER)))"
    using h2(2) unfolding hd2 .
  show ?thesis
    by (intro conjI) (rule c lt d(2) d(3) d(4) code e(1) e(2) g1 g2 run1 no1 r run2)+
qed

text \<open>
  The class \<^verbatim>\<open>Root\<close> of the example extends nothing and its initializer calls
  \<^verbatim>\<open>this.super\<close>. The base is \<^verbatim>\<open>Object\<close>, whose prototype has a \<^verbatim>\<open>constructor\<close>, so
  \<^verbatim>\<open>new Root()\<close> calls \<^verbatim>\<open>Object\<close> and throws nothing.
\<close>

theorem Wrapped_super_call_counterexample:
  "get root2 8 EXTEND = Undefined \<and> own_enumerable root2 8 INITIALIZE = Some (Ref 6) \<and>
   code (objs root2 6) = Some super_call \<and>
   fst (create root2 (Ref 8)) = Inr (Ref 9) \<and>
   code (objs root_heap 9) = Some (Class (Ref 11) Undefined) \<and>
   code (objs root_heap 11) = Some (Wrapped (Ref 6) CONSTRUCTOR (Ref Object)) \<and>
   get root_heap ObjectPrototype CONSTRUCTOR = Ref Object \<and>
   proto (objs root_heap 13) = Ref 10 \<and> get root_heap 9 PROTOTYPE = Ref 10 \<and>
   (\<exists>h. call 5 root_heap (Ref 9) (Ref 13) [] = Some (Inr Undefined, h))"
  by (simp add: own_enumerable_def root_defs eval)

subsection \<open>The reserved name\<close>





subsection \<open>Precedence\<close>






subsection \<open>The wrapped method\<close>

text \<open>
  C5. Whatever the wrapped method does and however it ends (\<open>r\<close> is its value or its
  exception), the \<^verbatim>\<open>super\<close> slot of the receiver reads the same after the call as
  before it. When the base is in place, the method itself ran in a heap in which the slot
  was bound to the base's member of that name, or to \<^verbatim>\<open>noSuper\<close>, and the slot was
  written back afterwards.
\<close>

theorem Wrapped_restores_super:
  assumes "code (objs h w) = Some (Wrapped method signature base)"
      and "call (Suc n) h (Ref w) this args = Some (r, h')"
  shows "getV h' this SUPER = getV h this SUPER \<and>
         (\<forall>t p m. this = Ref t \<and> getV h base PROTOTYPE = Inr p \<and> getV h p signature = Inr m \<longrightarrow>
            (\<exists>h2. call n (put h t SUPER (if truthy m then m else Ref noSuper)) method this args
                     = Some (r, h2) \<and>
                  h' = put h2 t SUPER (get h t SUPER)))"
proof (cases this)
  case (Ref t)
  then show ?thesis
    using assms
    by (auto simp: Wrapped_body_def get_put_same split: sum.splits option.splits prod.splits)
qed (use assms in \<open>auto simp: Wrapped_body_def split: sum.splits\<close>)

text \<open>
  In the example, \<^verbatim>\<open>a\<close> of \<^verbatim>\<open>Sub\<close> first calls \<^verbatim>\<open>b\<close>, a wrapped method that calls
  its own superclass method and then throws; \<^verbatim>\<open>a\<close> catches that and calls
  \<^verbatim>\<open>this.super()\<close>, which is \<^verbatim>\<open>a\<close> of \<^verbatim>\<open>Base\<close> again.
\<close>

theorem Wrapped_restores_super_witness:
  "code (objs nested_heap 25) = Some (Wrapped (Ref 17) ''a'' (Ref 11)) \<and>
   (\<exists>h'. call 6 nested_heap (Ref 25) (Ref 29) [] = Some (Inr (Str ''base a''), h') \<and>
         getV h' (Ref 29) SUPER = getV nested_heap (Ref 29) SUPER)"
proof -
  have c: "code (objs nested_heap 25) = Some (Wrapped (Ref 17) ''a'' (Ref 11))"
    by (simp add: nested_defs eval)
  have "map_option fst (call 6 nested_heap (Ref 25) (Ref 29) []) = Some (Inr (Str ''base a''))"
    by (simp add: nested_defs eval)
  then obtain h' where r: "call (Suc 5) nested_heap (Ref 25) (Ref 29) [] = Some (Inr (Str ''base a''), h')"
    by (auto simp: eval_nat_numeral)
  from Wrapped_restores_super [OF c r] have "getV h' (Ref 29) SUPER = getV nested_heap (Ref 29) SUPER"
    by simp
  with c r show ?thesis
    by (auto simp: eval_nat_numeral)
qed

subsection \<open>Static members\<close>




subsection \<open>The default initializer\<close>

lemmas default_defs = order1_def order2_def order3_def default1_def default2_def
  default_heap_def recording_def




subsection \<open>The constructor\<close>




subsection \<open>Wrapping\<close>






subsection \<open>The arguments of the constructor\<close>




end
